theory Spec2Isabelle
  imports Main "HOL-Library.Multiset"
begin

section \<open>Strings\<close>

text \<open>
  Strings are lists of characters. The source only inspects ASCII characters
  (the scheme prefix, the content type, white space), so the ASCII reading of
  \<open>String.prototype.trim\<close>, \<open>includes\<close> and the \<open>i\<close> flag is what is modelled.
  \<open>isSpace\<close> holds of the six ASCII white-space characters; the no-break space
  and the other Unicode white space that \<open>trim\<close> strips as well are not part
  of the model's strings.
\<close>

definition isSpace :: "char \<Rightarrow> bool" where
  "isSpace c = (c \<in> set [CHR '' '', CHR 0x09, CHR 0x0A, CHR 0x0B, CHR 0x0C, CHR 0x0D])"

definition trim :: "string \<Rightarrow> string" where
  "trim s = rev (dropWhile isSpace (rev (dropWhile isSpace s)))"

definition toLowerChar :: "char \<Rightarrow> char" where
  "toLowerChar c =
     (case map_of (zip ''ABCDEFGHIJKLMNOPQRSTUVWXYZ'' ''abcdefghijklmnopqrstuvwxyz'') c of
        None \<Rightarrow> c | Some d \<Rightarrow> d)"

fun strIncludes :: "string \<Rightarrow> string \<Rightarrow> bool" where
  "strIncludes [] sub = (sub = [])"
| "strIncludes (c # cs) sub = (take (length sub) (c # cs) = sub \<or> strIncludes cs sub)"

text \<open>The test \<open>/^https?:\/\//i.test(url)\<close> of \<open>run\<close> and \<open>runStreaming\<close>.\<close>

definition hasScheme :: "string \<Rightarrow> bool" where
  "hasScheme u =
     (let l = map toLowerChar u in take 7 l = ''http://'' \<or> take 8 l = ''https://'')"

definition normalizeUrl :: "string \<Rightarrow> string" where
  "normalizeUrl u = (if \<not> hasScheme u then ''http://'' @ u else u)"

section \<open>CheckResult and checkUrl\<close>

record check_result =
  url :: string
  status :: "int option"
  ok :: bool
  responseTimeMs :: "int option"
  hasH1 :: bool
  h1Count :: nat
  h1Length :: nat
  multipleH1 :: bool
  missingH1 :: bool
  h1 :: "string option"
  title :: "string option"
  metaDescription :: "string option"
  canonical :: "string option"
  error :: "string option"

text \<open>
  What cheerio selects from the markup of a page, before \<open>checkUrl\<close> trims it:
  the text of the first \<open>title\<close>, the \<open>content\<close> of the two description metas,
  the \<open>href\<close> of the canonical link and the texts of the \<open>h1\<close> elements.
\<close>

record page =
  titleText :: string
  metaNameDescription :: "string option"
  metaOgDescription :: "string option"
  canonicalHref :: "string option"
  h1Texts :: "string list"

text \<open>
  The network as \<open>checkUrl\<close> sees it. \<open>FetchThrows name message\<close>: \<open>fetchWithTimeout\<close>
  throws (on a timeout the error's name is \<open>AbortError\<close>). \<open>FetchResponds status ok
  contentType body\<close>: a response, with \<open>headers.get('content-type')\<close> and the outcome
  of \<open>res.text()\<close>.
\<close>

datatype body = BodyThrows string string | BodyText page

datatype fetched = FetchThrows string string | FetchResponds int bool "string option" body

definition emptyResult :: "string \<Rightarrow> check_result" where
  "emptyResult u =
     \<lparr>url = u, status = None, ok = False, responseTimeMs = None, hasH1 = False,
      h1Count = 0, h1Length = 0, multipleH1 = False, missingH1 = True, h1 = None,
      title = None, metaDescription = None, canonical = None, error = None\<rparr>"

definition errorText :: "string \<Rightarrow> string \<Rightarrow> string" where
  "errorText name msg = (if name = ''AbortError'' then ''timeout'' else msg)"

definition truthy :: "string option \<Rightarrow> bool" where
  "truthy x = (case x of None \<Rightarrow> False | Some t \<Rightarrow> t \<noteq> [])"

definition analyse :: "page \<Rightarrow> check_result \<Rightarrow> check_result" where
  "analyse p out =
     (let t = trim (titleText p);
          metaDesc = (if truthy (metaNameDescription p) then metaNameDescription p
                      else metaOgDescription p);
          n = length (h1Texts p);
          out1 = out\<lparr>title := (if t = [] then None else Some t),
                     metaDescription := (if truthy metaDesc then map_option trim metaDesc else None),
                     canonical := (if truthy (canonicalHref p) then map_option trim (canonicalHref p)
                                   else None),
                     h1Count := n, multipleH1 := (1 < n), missingH1 := (n = 0)\<rparr>
      in case h1Texts p of
           [] \<Rightarrow> out1
         | x # _ \<Rightarrow> out1\<lparr>hasH1 := True, h1 := Some (trim x), h1Length := length (trim x)\<rparr>)"

text \<open>
  \<open>checkUrl url\<close>; \<open>ms\<close> is \<open>Date.now() - start\<close>, which the \<open>finally\<close> block stores
  on every path, the early return of the non-HTML case included. What cheerio
  selects from a body that was read is given by the \<open>page\<close>.
\<close>

definition checkUrl :: "string \<Rightarrow> fetched \<Rightarrow> int \<Rightarrow> check_result" where
  "checkUrl u f ms =
     (case f of
        FetchThrows name msg \<Rightarrow> (emptyResult u)\<lparr>error := Some (errorText name msg)\<rparr>
      | FetchResponds st k ct b \<Rightarrow>
          (let out = (emptyResult u)\<lparr>status := Some st, ok := k\<rparr>;
               contentType = (case ct of None \<Rightarrow> [] | Some c \<Rightarrow> c)
           in if \<not> strIncludes contentType ''text/html''
              then out\<lparr>error := Some (''non-html content-type: '' @ contentType)\<rparr>
              else (case b of
                      BodyThrows name msg \<Rightarrow> out\<lparr>error := Some (errorText name msg)\<rparr>
                    | BodyText p \<Rightarrow> analyse p out)))
     \<lparr>responseTimeMs := Some ms\<rparr>"

text \<open>
  What the worker's \<open>await checkUrl(url)\<close> gives: \<open>Settles f ms\<close> is the normal
  return, \<open>Rejects message\<close> the rejection that the worker's own \<open>catch\<close> turns
  into a result.
\<close>

datatype checked = Settles fetched int | Rejects string

definition workerResult :: "string \<Rightarrow> checked \<Rightarrow> check_result" where
  "workerResult u c =
     (case c of Settles f ms \<Rightarrow> checkUrl u f ms
              | Rejects msg \<Rightarrow> (emptyResult u)\<lparr>error := Some msg\<rparr>)"

section \<open>Jobs, events and observers\<close>

datatype payload =
    PStart nat
  | PProgress nat check_result nat nat
  | PDone nat nat
  | PFailed string
  | PPing

type_synonym evt = "string \<times> payload"

text \<open>
  A response stream of \<open>/api/check-events\<close>: the events written to it, whether
  \<open>res.end()\<close> was called, and whether its heartbeat interval is running.
  Node drops what is written to a response after \<open>end()\<close>.
\<close>

record conn =
  sent :: "evt list"
  ended :: bool
  heartbeat :: bool

text \<open>
  The job object of \<open>createJob\<close>. \<open>clients\<close> is the Set of responses, in
  insertion order, as indices into the connections; \<open>cleanupTimer\<close> says
  whether the eviction timer is armed.
\<close>

record job =
  total :: nat
  processed :: nat
  results :: "check_result option list"
  events :: "evt list"
  clients :: "nat list"
  "done" :: bool
  cancelled :: bool
  cleanupTimer :: bool

text \<open>
  A worker of \<open>runStreaming\<close> between two of its suspension points: \<open>Ready\<close> at
  the top of its loop, \<open>Fetching idx url\<close> inside \<open>await checkUrl(url)\<close>,
  \<open>Finished\<close> after \<open>break\<close>, \<open>Rejected\<close> after a throw.
\<close>

datatype worker = Ready | Fetching nat string | Finished | Rejected

text \<open>
  One \<open>/api/check-job\<close> request: the job, the connections attached to it, and
  the closure of \<open>runStreaming\<close> (\<open>urls\<close>, the cursor \<open>i\<close>, the workers, and
  whether \<open>Promise.all\<close> has settled).
\<close>

record run =
  job :: job
  conns :: "conn list"
  urls :: "string list"
  cursor :: nat
  workers :: "worker list"
  settled :: bool

definition sendSse :: "conn \<Rightarrow> evt \<Rightarrow> conn" where
  "sendSse c e = (if ended c then c else c\<lparr>sent := sent c @ [e]\<rparr>)"

definition isTerminal :: "string \<Rightarrow> bool" where
  "isTerminal event = (event = ''done'' \<or> event = ''failed'')"

fun fanOut :: "evt \<Rightarrow> nat list \<Rightarrow> conn list \<Rightarrow> conn list" where
  "fanOut e [] cs = cs"
| "fanOut e (c # rest) cs =
     fanOut e rest
       (cs[c := (let x = sendSse (cs ! c) e
                 in if isTerminal (fst e) then x\<lparr>ended := True\<rparr> else x)])"

definition pushJobEvent :: "string \<Rightarrow> payload \<Rightarrow> run \<Rightarrow> run" where
  "pushJobEvent event pl s =
     s\<lparr>job := (job s)\<lparr>events := events (job s) @ [(event, pl)],
                       clients := (if isTerminal event then [] else clients (job s))\<rparr>,
       conns := fanOut (event, pl) (clients (job s)) (conns s)\<rparr>"

definition createJob :: "string list \<Rightarrow> job" where
  "createJob us =
     \<lparr>total = length us, processed = 0, results = replicate (length us) None,
      events = [], clients = [], done = False, cancelled = False, cleanupTimer = False\<rparr>"

definition cleanupJob :: "run \<Rightarrow> run" where
  "cleanupJob s = s\<lparr>job := (job s)\<lparr>cleanupTimer := True\<rparr>\<rparr>"

text \<open>\<open>array[index] = v\<close>: JavaScript extends the array when the index is out of range.\<close>

definition arraySet :: "'a option list \<Rightarrow> nat \<Rightarrow> 'a \<Rightarrow> 'a option list" where
  "arraySet xs n v =
     (if n < length xs then xs[n := Some v]
      else xs @ replicate (n - length xs) None @ [Some v])"

section \<open>The worker pool of runStreaming, as run by /api/check-job\<close>

text \<open>
  The callback \<open>onResult\<close> that \<open>/api/check-job\<close> passes to \<open>runStreaming\<close>.
\<close>

definition onResult :: "nat \<Rightarrow> check_result \<Rightarrow> run \<Rightarrow> run" where
  "onResult index r s =
     (if cancelled (job s) then s
      else let s1 = s\<lparr>job := (job s)\<lparr>results := arraySet (results (job s)) index r,
                                     processed := processed (job s) + 1\<rparr>\<rparr>
           in pushJobEvent ''progress''
                (PProgress index r (processed (job s1)) (total (job s1))) s1)"

text \<open>The callbacks of \<open>.then\<close> and \<open>.catch\<close> on the promise of \<open>runStreaming\<close>.\<close>

definition onFulfilled :: "run \<Rightarrow> run" where
  "onFulfilled s =
     (if done (job s) then s
      else if cancelled (job s)
      then cleanupJob (pushJobEvent ''failed'' (PFailed ''cancelled'')
             (s\<lparr>job := (job s)\<lparr>done := True\<rparr>\<rparr>))
      else cleanupJob (pushJobEvent ''done'' (PDone (processed (job s)) (total (job s)))
             (s\<lparr>job := (job s)\<lparr>done := True\<rparr>\<rparr>)))"

definition onRejected :: "string \<Rightarrow> run \<Rightarrow> run" where
  "onRejected msg s =
     (if done (job s) then s
      else cleanupJob (pushJobEvent ''failed'' (PFailed msg)
             (s\<lparr>job := (job s)\<lparr>done := True\<rparr>\<rparr>)))"

text \<open>
  \<open>Promise.all(workers)\<close> is fulfilled once, when every worker has left its
  loop by \<open>break\<close>; nothing can run between that and the \<open>.then\<close> callback.
\<close>

definition whenAllDone :: "run \<Rightarrow> run" where
  "whenAllDone s =
     (if \<not> settled s \<and> (\<forall>w \<in> set (workers s). w = Finished)
      then onFulfilled (s\<lparr>settled := True\<rparr>) else s)"

text \<open>
  The worker's loop from its top to the next suspension: \<open>shouldStop()\<close> is
  \<open>job.cancelled\<close>, then the index is claimed with \<open>i++\<close>.
\<close>

definition workerTop :: "nat \<Rightarrow> run \<Rightarrow> run" where
  "workerTop k s =
     (if cancelled (job s) then s\<lparr>workers := (workers s)[k := Finished]\<rparr>
      else let idx = cursor s; s1 = s\<lparr>cursor := cursor s + 1\<rparr>
           in if length (urls s) \<le> idx then s1\<lparr>workers := (workers s)[k := Finished]\<rparr>
              else s1\<lparr>workers := (workers s)[k := Fetching idx (normalizeUrl (urls s ! idx))]\<rparr>)"

text \<open>
  The worker after \<open>await checkUrl(url)\<close>: the second \<open>shouldStop()\<close>, then
  \<open>onResult\<close>, then the suspension of \<open>await onResult(...)\<close>.
\<close>

definition workerDeliver :: "nat \<Rightarrow> nat \<Rightarrow> check_result \<Rightarrow> run \<Rightarrow> run" where
  "workerDeliver k idx r s =
     (if cancelled (job s) then whenAllDone (s\<lparr>workers := (workers s)[k := Finished]\<rparr>)
      else (onResult idx r s)\<lparr>workers := (workers s)[k := Ready]\<rparr>)"

text \<open>
  \<open>runStreaming\<close> up to \<open>await Promise.all(workers)\<close>: each \<open>worker()\<close> call runs
  synchronously to its first suspension.
\<close>

definition runStreaming :: "int \<Rightarrow> run \<Rightarrow> run" where
  "runStreaming concurrency s =
     (let w = nat (max 1 (min concurrency (int (length (urls s)))))
      in whenAllDone (foldl (\<lambda>t k. workerTop k t) (s\<lparr>workers := replicate w Ready\<rparr>) [0..<w]))"

text \<open>
  \<open>POST /api/check-job\<close> with an array of strings \<open>us\<close> and an integer (or absent)
  \<open>concurrency\<close> (\<open>Number(concurrency) || defaultConcurrency\<close> takes the default
  for an absent value and for 0); \<open>dc\<close> is the configured \<open>defaultConcurrency\<close>. \<open>startJob\<close> is
  the handler after its validation, up to the end of its synchronous part;
  \<open>checkJob\<close> gives the 400 error or that state.
\<close>

definition startJob :: "int \<Rightarrow> string list \<Rightarrow> int option \<Rightarrow> run" where
  "startJob dc us concurrency =
     runStreaming
       (case concurrency of None \<Rightarrow> dc | Some n \<Rightarrow> if n = 0 then dc else n)
       (pushJobEvent ''start'' (PStart (length us))
          \<lparr>job = createJob us, conns = [], urls = us, cursor = 0,
           workers = [], settled = False\<rparr>)"

definition checkJob :: "int \<Rightarrow> string list \<Rightarrow> int option \<Rightarrow> string + run" where
  "checkJob dc us concurrency =
     (if us = [] then Inl ''urls must be a non-empty array''
      else Inr (startJob dc us concurrency))"

section \<open>Cancellation and observers\<close>

text \<open>\<open>POST /api/check-cancel\<close> after the job was found.\<close>

definition cancelJob :: "run \<Rightarrow> run" where
  "cancelJob s =
     (let s1 = s\<lparr>job := (job s)\<lparr>cancelled := True\<rparr>\<rparr>
      in if \<not> done (job s1)
         then cleanupJob (pushJobEvent ''failed'' (PFailed ''cancelled'')
                (s1\<lparr>job := (job s1)\<lparr>done := True\<rparr>\<rparr>))
         else s1)"

text \<open>
  \<open>POST /api/check-cancel\<close> on the registry \<open>jobs\<close>: the new registry and the
  \<open>ok\<close> field of the response.
\<close>

definition checkCancel :: "(string \<rightharpoonup> run) \<Rightarrow> string \<Rightarrow> (string \<rightharpoonup> run) \<times> bool" where
  "checkCancel jobs jobId =
     (case jobs jobId of
        None \<Rightarrow> (jobs, False)
      | Some s \<Rightarrow> (jobs(jobId \<mapsto> cancelJob s), True))"

text \<open>
  \<open>GET /api/check-events\<close> after the job was found: a new response, the replay
  of the log, then either \<open>res.end()\<close> or \<open>job.clients.add(res)\<close>. The padding
  that \<open>initSse\<close> writes is an SSE comment, not an event, and is left out.
\<close>

definition attach :: "run \<Rightarrow> run" where
  "attach s =
     (let res = foldl sendSse \<lparr>sent = [], ended = False, heartbeat = True\<rparr> (events (job s))
      in if done (job s)
         then s\<lparr>conns := conns s @ [res\<lparr>heartbeat := False, ended := True\<rparr>]\<rparr>
         else s\<lparr>conns := conns s @ [res],
                job := (job s)\<lparr>clients := clients (job s) @ [length (conns s)]\<rparr>\<rparr>)"

text \<open>
  \<open>GET /api/check-events\<close> on the registry: \<open>Inl\<close> is the 404 answer.
\<close>

definition checkEvents :: "(string \<rightharpoonup> run) \<Rightarrow> string \<Rightarrow> string + (string \<rightharpoonup> run)" where
  "checkEvents jobs q =
     (let jobId = trim q
      in case jobs jobId of
           None \<Rightarrow> Inl ''job not found''
         | Some s \<Rightarrow> Inr (jobs(jobId \<mapsto> attach s)))"

text \<open>The \<open>close\<close> handler of a \<open>/api/check-events\<close> request, and its heartbeat.\<close>

definition closeConn :: "nat \<Rightarrow> run \<Rightarrow> run" where
  "closeConn c s =
     (if c < length (conns s)
      then s\<lparr>conns := (conns s)[c := (conns s ! c)\<lparr>heartbeat := False\<rparr>],
             job := (job s)\<lparr>clients := removeAll c (clients (job s))\<rparr>\<rparr>
      else s)"

definition ping :: "nat \<Rightarrow> run \<Rightarrow> run" where
  "ping c s =
     (if c < length (conns s) \<and> heartbeat (conns s ! c)
      then s\<lparr>conns := (conns s)[c := sendSse (conns s ! c) (''ping'', PPing)]\<rparr>
      else s)"

section \<open>Interleavings\<close>

text \<open>
  What the event loop can run next on a job. \<open>Resume k\<close>: worker \<open>k\<close> continues at
  the top of its loop. \<open>FetchDone k c\<close>: the \<open>checkUrl\<close> of worker \<open>k\<close> settles as
  \<open>c\<close>. \<open>Fault k msg\<close>: the promise of worker \<open>k\<close> rejects with an error of that
  message, which is what the \<open>.catch\<close> of \<open>/api/check-job\<close> handles; the worker
  has no \<open>throw\<close> of its own, so the rejection comes from the environment and
  changes nothing else. \<open>Promise.all\<close> rejects at the first rejection and leaves
  the other workers running. \<open>Cancel\<close>, \<open>Attach\<close>: requests for this job.
  \<open>Close c\<close>, \<open>Heartbeat c\<close>: the close event and the interval of connection \<open>c\<close>.
  An event that the state does not enable (a worker that is not where the
  event needs it, a connection that does not exist) leaves the state as it is.
\<close>

datatype op =
    Resume nat
  | FetchDone nat checked
  | Fault nat string
  | Cancel
  | Attach
  | Close nat
  | Heartbeat nat

fun step :: "op \<Rightarrow> run \<Rightarrow> run" where
  "step (Resume k) s =
     (if k < length (workers s) \<and> workers s ! k = Ready then whenAllDone (workerTop k s) else s)"
| "step (FetchDone k c) s =
     (if k < length (workers s)
      then (case workers s ! k of
              Fetching idx u \<Rightarrow> workerDeliver k idx (workerResult u c) s
            | _ \<Rightarrow> s)
      else s)"
| "step (Fault k msg) s =
     (if k < length (workers s) \<and> workers s ! k \<noteq> Finished \<and> workers s ! k \<noteq> Rejected
      then (let s1 = s\<lparr>workers := (workers s)[k := Rejected]\<rparr>
            in if settled s1 then s1 else onRejected msg (s1\<lparr>settled := True\<rparr>))
      else s)"
| "step Cancel s = cancelJob s"
| "step Attach s = attach s"
| "step (Close c) s = closeConn c s"
| "step (Heartbeat c) s = ping c s"

definition runOps :: "op list \<Rightarrow> run \<Rightarrow> run" where
  "runOps ops s = foldl (\<lambda>t x. step x t) s ops"

section \<open>The sitemap crawler of /api/sitemap-stream\<close>

datatype crawl_event = Batch "string list" nat | CrawlDone nat | CrawlFailed string

text \<open>
  What fetching one sitemap document gives. \<open>SitemapThrows message\<close>:
  \<open>fetchWithTimeout\<close> throws. \<open>SitemapResponds ok status body\<close>: a response;
  its body is \<open>TextThrows message\<close> when \<open>resXml.text()\<close> throws, \<open>ParseThrows
  message\<close> when \<open>parseSitemapXml\<close> throws, and otherwise \<open>Parsed us ms\<close> with
  the texts of the \<open>urlset > url > loc\<close> and of the \<open>sitemapindex > sitemap > loc\<close>
  elements.
\<close>

datatype xml_body = TextThrows string | ParseThrows string | Parsed "string list" "string list"

datatype sitemap_fetch = SitemapThrows string | SitemapResponds bool nat xml_body

fun decimal :: "nat \<Rightarrow> string" where
  "decimal n =
     (if n < 10 then [''0123456789'' ! n]
      else decimal (n div 10) @ [''0123456789'' ! (n mod 10)])"

declare decimal.simps [simp del]

text \<open>The two loops of \<open>parseSitemapXml\<close> over the selected elements.\<close>

definition parseSitemapXml :: "string list \<Rightarrow> string list \<Rightarrow> string list \<times> string list" where
  "parseSitemapXml us ms =
     (filter (\<lambda>loc. loc \<noteq> []) (map trim us), filter (\<lambda>loc. loc \<noteq> []) (map trim ms))"

text \<open>
  The variables of one crawl: the two Sets (in insertion order), the queue,
  \<open>total\<close> (here \<open>found\<close>), \<open>closed\<close>, what \<open>send\<close> has written, whether
  \<open>res.end()\<close> was called, and the URLs passed to \<open>fetchWithTimeout\<close> so far.
\<close>

record crawl =
  visitedSitemaps :: "string list"
  seenUrls :: "string list"
  queue :: "(string \<times> nat) list"
  found :: nat
  closed :: bool
  out :: "crawl_event list"
  resEnded :: bool
  fetches :: "string list"

definition failWith :: "string \<Rightarrow> crawl \<Rightarrow> crawl" where
  "failWith msg st = st\<lparr>out := out st @ [CrawlFailed msg], resEnded := True\<rparr>"

text \<open>
  The fetch of one document. \<open>closes n\<close> says whether the request's \<open>close\<close>
  event fires while fetch number \<open>n\<close> is awaited. \<open>Inl\<close> is the state at a
  \<open>return\<close> out of the loop, \<open>Inr\<close> the parsed document.
\<close>

definition fetchDoc ::
  "(string \<Rightarrow> sitemap_fetch) \<Rightarrow> (nat \<Rightarrow> bool) \<Rightarrow> string \<Rightarrow> crawl
     \<Rightarrow> crawl + crawl \<times> string list \<times> string list" where
  "fetchDoc net closes u st =
     (let st1 = st\<lparr>fetches := fetches st @ [u],
                    closed := (closed st \<or> closes (length (fetches st)))\<rparr>
      in case net u of
           SitemapThrows msg \<Rightarrow> Inl (failWith msg st1)
         | SitemapResponds k code b \<Rightarrow>
             if \<not> k then Inl (failWith (''sitemap fetch failed: '' @ decimal code) st1)
             else (case b of
                     TextThrows msg \<Rightarrow> Inl (failWith msg st1)
                   | ParseThrows msg \<Rightarrow> Inl (if \<not> closed st1 then failWith msg st1 else st1)
                   | Parsed us ms \<Rightarrow> Inr (st1, parseSitemapXml us ms)))"

definition enqueue :: "nat \<Rightarrow> nat \<Rightarrow> string list \<Rightarrow> crawl \<Rightarrow> crawl" where
  "enqueue maxDepth depth sitemapLocs st =
     (if depth < maxDepth
      then st\<lparr>queue := queue st @
             map (\<lambda>loc. (loc, depth + 1))
               (filter (\<lambda>loc. loc \<notin> set (visitedSitemaps st)) sitemapLocs)\<rparr>
      else st)"

text \<open>The loop that fills \<open>newUrls\<close>: its result, given \<open>seenUrls\<close> before it.\<close>

fun newUrls :: "string list \<Rightarrow> string list \<Rightarrow> string list" where
  "newUrls seen [] = []"
| "newUrls seen (loc # locs) =
     (if loc = [] \<or> loc \<in> set seen then newUrls seen locs
      else loc # newUrls (seen @ [loc]) locs)"

fun batches :: "'a list \<Rightarrow> 'a list list" where
  "batches xs = (if xs = [] then [] else take 200 xs # batches (drop 200 xs))"

declare batches.simps [simp del]

definition sendBatch :: "crawl \<Rightarrow> string list \<Rightarrow> crawl" where
  "sendBatch st batch =
     st\<lparr>found := found st + length batch,
        out := out st @ [Batch batch (found st + length batch)]\<rparr>"

definition emit :: "string list \<Rightarrow> crawl \<Rightarrow> crawl" where
  "emit urlLocs st =
     (let new = newUrls (seenUrls st) urlLocs
      in foldl sendBatch (st\<lparr>seenUrls := seenUrls st @ new\<rparr>) (batches new))"

text \<open>What follows the \<open>while\<close> loop.\<close>

definition afterLoop :: "crawl \<Rightarrow> crawl" where
  "afterLoop st =
     (if \<not> closed st then st\<lparr>out := out st @ [CrawlDone (found st)], resEnded := True\<rparr>
      else st)"

lemma queue_foldl_sendBatch: "queue (foldl sendBatch st bs) = queue st"
  by (induction bs arbitrary: st) (simp_all add: sendBatch_def)

lemma queue_emit: "queue (emit urlLocs st) = queue st"
  by (simp add: emit_def Let_def queue_foldl_sendBatch)

lemma queue_fetchDoc: "fetchDoc net closes u st = Inr (st', x) \<Longrightarrow> queue st' = queue st"
  by (auto simp: fetchDoc_def Let_def split: sitemap_fetch.splits xml_body.splits if_splits)

lemma queue_shrinks:
  "\<forall>k \<in> set ks. k < a \<Longrightarrow> (mset (rest @ ks), mset (a # rest)) \<in> mult less_than"
  using one_step_implies_mult[of "{#a#}" "mset ks" less_than "mset rest"]
  by (simp add: add.commute)

function crawlLoop ::
  "(string \<Rightarrow> sitemap_fetch) \<Rightarrow> (nat \<Rightarrow> bool) \<Rightarrow> nat \<Rightarrow> crawl \<Rightarrow> crawl" where
  "crawlLoop net closes maxDepth st =
     (case queue st of
        [] \<Rightarrow> afterLoop st
      | (u, depth) # rest \<Rightarrow>
          if closed st then afterLoop st
          else if u \<in> set (visitedSitemaps st)
          then crawlLoop net closes maxDepth (st\<lparr>queue := rest\<rparr>)
          else (case fetchDoc net closes u
                       (st\<lparr>queue := rest, visitedSitemaps := visitedSitemaps st @ [u]\<rparr>) of
                  Inl st' \<Rightarrow> st'
                | Inr (st', urlLocs, sitemapLocs) \<Rightarrow>
                    crawlLoop net closes maxDepth
                      (emit urlLocs (enqueue maxDepth depth sitemapLocs st'))))"
  by pat_completeness auto

termination
proof (relation "inv_image (mult less_than)
    (\<lambda>(net, closes, maxDepth, st). mset (map (\<lambda>(u, d). Suc maxDepth - d) (queue st)))",
    goal_cases)
  case 1
  show ?case by (simp add: wf_mult)
next
  case (2 net closes maxDepth st x21 x22 u depth)
  then show ?case
    using queue_shrinks[of "[]" "Suc maxDepth - depth" "map (\<lambda>(u, d). Suc maxDepth - d) x22"]
    by auto
next
  case (3 net closes maxDepth st x21 x22 u depth b st' y urlLocs sitemapLocs)
  define ks where "ks = map (\<lambda>(u, d). Suc maxDepth - d) (if depth < maxDepth
             then map (\<lambda>loc. (loc, depth + 1))
                    (filter (\<lambda>loc. loc \<notin> set (visitedSitemaps st')) sitemapLocs)
             else [])"
  define rs where "rs = map (\<lambda>(u, d). Suc maxDepth - d) x22"
  have q: "queue st' = x22"
    using 3 queue_fetchDoc[of net closes u _ st' y] by simp
  have small: "\<forall>k \<in> set ks. k < Suc maxDepth - depth"
    unfolding ks_def by auto
  have new: "map (\<lambda>(u, d). Suc maxDepth - d)
      (queue (emit urlLocs (enqueue maxDepth depth sitemapLocs st'))) = rs @ ks"
    by (simp add: queue_emit enqueue_def q ks_def rs_def)
  have old: "map (\<lambda>(u, d). Suc maxDepth - d) (queue st) = (Suc maxDepth - depth) # rs"
    using 3 by (auto simp: rs_def)
  show ?case
    using queue_shrinks[OF small, of rs]
    by (simp only: in_inv_image prod.case new old)
qed

declare crawlLoop.simps [simp del]

text \<open>
  \<open>GET /api/sitemap-stream\<close>. \<open>parseUrl\<close> is \<open>new URL\<close>: \<open>None\<close> when it throws,
  otherwise the \<open>protocol\<close> and the serialised URL. \<open>q\<close> is the \<open>url\<close> query
  parameter, \<open>maxDepth\<close> the configured \<open>sitemapMaxDepth\<close>.
\<close>

definition sitemapStream ::
  "(string \<Rightarrow> (string \<times> string) option) \<Rightarrow> (string \<Rightarrow> sitemap_fetch) \<Rightarrow> (nat \<Rightarrow> bool)
     \<Rightarrow> nat \<Rightarrow> string option \<Rightarrow> crawl" where
  "sitemapStream parseUrl net closes maxDepth q =
     (let rawUrl = trim (case q of None \<Rightarrow> [] | Some x \<Rightarrow> x);
          st0 = \<lparr>visitedSitemaps = [], seenUrls = [], queue = [], found = 0, closed = False,
                 out = [], resEnded = False, fetches = []\<rparr>
      in if rawUrl = [] then failWith ''sitemap url required'' st0
         else (case parseUrl rawUrl of
                 None \<Rightarrow> failWith ''invalid sitemap url'' st0
               | Some (protocol, href) \<Rightarrow>
                   if protocol \<noteq> ''http:'' \<and> protocol \<noteq> ''https:''
                   then failWith ''invalid sitemap url'' st0
                   else crawlLoop net closes maxDepth (st0\<lparr>queue := [(href, 0)]\<rparr>)))"

section \<open>Reachable states and their invariants\<close>

text \<open>
  \<open>core\<close> collects the fields the slot invariant speaks about; \<open>filled\<close> counts
  the non-empty slots of the results array.
\<close>

definition core :: "run \<Rightarrow> string list \<times> nat \<times> worker list \<times> nat \<times> nat \<times> check_result option list" where
  "core s = (urls s, cursor s, workers s, total (job s), processed (job s), results (job s))"

definition filled :: "'a option list \<Rightarrow> nat" where
  "filled xs = length (filter (\<lambda>x. x \<noteq> None) xs)"

text \<open>
  The slot invariant: the results array has one slot per URL, \<open>processed\<close> counts
  its non-empty slots, every index in flight was claimed, is still empty and is
  held by one worker only, and every non-empty slot holds the result of its own
  URL.
\<close>

definition slotsInv :: "run \<Rightarrow> bool" where
  "slotsInv s =
     (length (results (job s)) = length (urls s) \<and> total (job s) = length (urls s) \<and>
      processed (job s) = filled (results (job s)) \<and>
      (\<forall>k idx u. k < length (workers s) \<longrightarrow> workers s ! k = Fetching idx u \<longrightarrow>
          idx < cursor s \<and> idx < length (urls s) \<and> results (job s) ! idx = None \<and>
          u = normalizeUrl (urls s ! idx)) \<and>
      (\<forall>k k' idx u u'. k < length (workers s) \<longrightarrow> k' < length (workers s) \<longrightarrow>
          workers s ! k = Fetching idx u \<longrightarrow> workers s ! k' = Fetching idx u' \<longrightarrow> k = k') \<and>
      (\<forall>n r. n < length (urls s) \<longrightarrow> results (job s) ! n = Some r \<longrightarrow>
          n < cursor s \<and> (\<exists>c. r = workerResult (normalizeUrl (urls s ! n)) c)))"

text \<open>
  The pool invariant: without cancellation a worker only finishes when the
  cursor has passed the last URL, every claimed index is delivered or in flight
  as long as no worker was rejected, and a \<open>done\<close> event is only in the log of a
  job whose workers have all finished and whose slots are all filled.
\<close>

definition doneEvents :: "run \<Rightarrow> payload set" where
  "doneEvents s = {p. (''done'', p) \<in> set (events (job s))}"

definition pview ::
  "run \<Rightarrow> worker list \<times> bool \<times> string list \<times> nat \<times> check_result option list \<times> payload set \<times> bool \<times> nat" where
  "pview s = (workers s, cancelled (job s), urls s, cursor s, results (job s), doneEvents s,
              done (job s), total (job s))"

definition poolInv :: "run \<Rightarrow> bool" where
  "poolInv s =
     (workers s \<noteq> [] \<and>
      (\<not> cancelled (job s) \<longrightarrow>
         (\<forall>k < length (workers s). workers s ! k = Finished \<longrightarrow> length (urls s) \<le> cursor s)) \<and>
      (\<not> cancelled (job s) \<longrightarrow> (\<forall>k < length (workers s). workers s ! k \<noteq> Rejected) \<longrightarrow>
         (\<forall>n < length (urls s). n < cursor s \<longrightarrow>
            results (job s) ! n \<noteq> None \<or>
            (\<exists>k < length (workers s). \<exists>u. workers s ! k = Fetching n u))) \<and>
      (\<forall>p \<in> doneEvents s.
         done (job s) \<and> (\<forall>k < length (workers s). workers s ! k = Finished) \<and>
         (\<forall>n < length (urls s). results (job s) ! n \<noteq> None) \<and>
         p = PDone (total (job s)) (total (job s))))"

text \<open>
  The state of a job submitted with \<open>us\<close> and \<open>c\<close> after the interleaving \<open>ops\<close>.
\<close>

definition reached :: "int \<Rightarrow> string list \<Rightarrow> int option \<Rightarrow> op list \<Rightarrow> run" where
  "reached dc us c ops = runOps ops (startJob dc us c)"

text \<open>
  A job that was cancelled and is terminal, with no observer attached; and what
  of a job the log and the results make up.
\<close>

definition frozen :: "run \<Rightarrow> bool" where
  "frozen s = (done (job s) \<and> cancelled (job s) \<and> clients (job s) = [])"

definition logged :: "run \<Rightarrow> evt list \<times> check_result option list \<times> nat" where
  "logged s = (events (job s), results (job s), processed (job s))"

text \<open>
  The observer invariant. \<open>logEvents\<close> drops the keep-alive pings from what a
  connection received; \<open>terminals\<close> counts the terminal events of a log;
  \<open>startThenProgress tot es\<close> says that \<open>es\<close> is a \<open>start\<close> event followed by
  \<open>progress\<close> events numbered 1, 2, ...; \<open>deliver\<close> is what the loop of
  \<open>pushJobEvent\<close> does to one response. Every attached observer has received
  exactly the log; an ended connection has received a prefix of the log that
  holds a terminal event; the log holds one terminal event when the job is
  terminal and none before.
\<close>

definition logEvents :: "evt list \<Rightarrow> evt list" where
  "logEvents es = filter (\<lambda>e. fst e \<noteq> ''ping'') es"

definition terminals :: "evt list \<Rightarrow> nat" where
  "terminals es = length (filter (\<lambda>e. isTerminal (fst e)) es)"

definition oview :: "run \<Rightarrow> evt list \<times> nat list \<times> conn list \<times> bool \<times> nat \<times> nat" where
  "oview s = (events (job s), clients (job s), conns s, done (job s), processed (job s),
              total (job s))"

definition startThenProgress :: "nat \<Rightarrow> evt list \<Rightarrow> bool" where
  "startThenProgress tot es =
     (\<forall>n < length es.
        if n = 0 then es ! n = (''start'', PStart tot)
        else \<exists>idx r. es ! n = (''progress'', PProgress idx r n tot))"

definition obsInv :: "run \<Rightarrow> bool" where
  "obsInv s =
     (distinct (clients (job s)) \<and>
      (\<forall>d \<in> set (clients (job s)).
         d < length (conns s) \<and> \<not> ended (conns s ! d) \<and>
         logEvents (sent (conns s ! d)) = events (job s)) \<and>
      (done (job s) \<longrightarrow> clients (job s) = []) \<and>
      (\<forall>d < length (conns s). ended (conns s ! d) \<longrightarrow>
         done (job s) \<and> (\<exists>zs. events (job s) = logEvents (sent (conns s ! d)) @ zs) \<and>
         (\<exists>e \<in> set (sent (conns s ! d)). isTerminal (fst e))) \<and>
      terminals (events (job s)) = (if done (job s) then 1 else 0) \<and>
      (\<forall>e \<in> set (events (job s)). fst e \<noteq> ''ping'') \<and>
      (\<not> done (job s) \<longrightarrow>
         length (events (job s)) = Suc (processed (job s)) \<and>
         startThenProgress (total (job s)) (events (job s))))"

definition deliver :: "evt \<Rightarrow> conn \<Rightarrow> conn" where
  "deliver e c = (let x = sendSse c e in if isTerminal (fst e) then x\<lparr>ended := True\<rparr> else x)"

text \<open>
  \<open>isFault\<close> picks the faults out of an interleaving. \<open>lastIsTerminal\<close> holds as
  long as no fault has occurred: a cancelled job is terminal, and the log of a
  terminal job ends with its terminal event.
\<close>

definition isFault :: "op \<Rightarrow> bool" where
  "isFault x = (case x of Fault k msg \<Rightarrow> True | _ \<Rightarrow> False)"

definition lastIsTerminal :: "run \<Rightarrow> bool" where
  "lastIsTerminal s =
     ((cancelled (job s) \<longrightarrow> done (job s)) \<and>
      (done (job s) \<longrightarrow>
         isTerminal (fst (last (events (job s)))) \<and>
         (cancelled (job s) \<or> (\<forall>w \<in> set (workers s). w = Finished))))"

text \<open>
  The crawler. \<open>batchUrls\<close> is the concatenation of the URL lists of the \<open>batch\<close>
  events of a stream. \<open>fetchFails\<close> says that fetching a document failed: the
  fetch threw, the status was not ok, or reading the body threw; \<open>failMessage\<close>
  is the error the handler reports for it; \<open>answers\<close> says that a document was
  fetched and parsed. \<open>validRoot\<close> is the negation of the two early returns of
  the handler. \<open>crawlInv\<close> holds at the head of the loop, \<open>crawlPost\<close> of the
  state the handler ends in. \<open>failedCount\<close> counts the \<open>failed\<close> events.
\<close>

definition batchUrls :: "crawl_event list \<Rightarrow> string list" where
  "batchUrls es = concat (map (\<lambda>e. case e of Batch us t \<Rightarrow> us | _ \<Rightarrow> []) es)"

definition isBatch :: "crawl_event \<Rightarrow> bool" where
  "isBatch e = (case e of Batch us t \<Rightarrow> True | _ \<Rightarrow> False)"

definition fetchFails :: "sitemap_fetch \<Rightarrow> bool" where
  "fetchFails f =
     (case f of
        SitemapThrows msg \<Rightarrow> True
      | SitemapResponds k code b \<Rightarrow> \<not> k \<or> (case b of TextThrows msg \<Rightarrow> True | _ \<Rightarrow> False))"

definition failMessage :: "sitemap_fetch \<Rightarrow> string" where
  "failMessage f =
     (case f of
        SitemapThrows msg \<Rightarrow> msg
      | SitemapResponds k code b \<Rightarrow>
          if \<not> k then ''sitemap fetch failed: '' @ decimal code
          else (case b of TextThrows msg \<Rightarrow> msg | ParseThrows msg \<Rightarrow> msg | _ \<Rightarrow> []))"

definition crawlInv :: "(string \<Rightarrow> sitemap_fetch) \<Rightarrow> crawl \<Rightarrow> bool" where
  "crawlInv net st =
     (fetches st = visitedSitemaps st \<and> distinct (visitedSitemaps st) \<and>
      distinct (seenUrls st) \<and> batchUrls (out st) = seenUrls st \<and>
      found st = length (seenUrls st) \<and> (\<forall>e \<in> set (out st). isBatch e) \<and>
      (\<forall>u \<in> set (fetches st). \<not> fetchFails (net u)))"

definition crawlPost :: "(string \<Rightarrow> sitemap_fetch) \<Rightarrow> crawl \<Rightarrow> bool" where
  "crawlPost net r =
     (distinct (fetches r) \<and> distinct (batchUrls (out r)) \<and>
      (\<forall>t. CrawlDone t \<in> set (out r) \<longrightarrow> t = length (batchUrls (out r))) \<and>
      (\<forall>n < length (fetches r). fetchFails (net (fetches r ! n)) \<longrightarrow>
         Suc n = length (fetches r) \<and> resEnded r \<and>
         (\<exists>bs. out r = bs @ [CrawlFailed (failMessage (net (fetches r ! n)))] \<and>
               (\<forall>e \<in> set bs. isBatch e))))"

definition answers :: "sitemap_fetch \<Rightarrow> bool" where
  "answers f =
     (case f of
        SitemapThrows msg \<Rightarrow> False
      | SitemapResponds k code b \<Rightarrow> k \<and> (case b of Parsed us ms \<Rightarrow> True | _ \<Rightarrow> False))"

definition validRoot :: "(string \<Rightarrow> (string \<times> string) option) \<Rightarrow> string option \<Rightarrow> bool" where
  "validRoot parseUrl q =
     (trim (case q of None \<Rightarrow> [] | Some x \<Rightarrow> x) \<noteq> [] \<and>
      (case parseUrl (trim (case q of None \<Rightarrow> [] | Some x \<Rightarrow> x)) of
         None \<Rightarrow> False
       | Some (protocol, href) \<Rightarrow> protocol = ''http:'' \<or> protocol = ''https:''))"

definition failedCount :: "crawl_event list \<Rightarrow> nat" where
  "failedCount es = length (filter (\<lambda>e. case e of CrawlFailed m \<Rightarrow> True | _ \<Rightarrow> False) es)"

section \<open>Example inputs\<close>

text \<open>
  A fetch that times out and the result \<open>checkUrl\<close> makes of it; a job of two
  URLs run by two workers; the interleaving in which the second URL answers first
  and both workers then leave their loops.
\<close>

definition timedOut :: checked where
  "timedOut = Settles (FetchThrows ''AbortError'' ''timeout'') 15000"

definition timeoutResult :: "string \<Rightarrow> check_result" where
  "timeoutResult u = (emptyResult u)\<lparr>error := Some ''timeout'', responseTimeMs := Some 15000\<rparr>"

definition exampleUrls :: "string list" where
  "exampleUrls = [''a'', ''https://b'']"

definition bothDone :: "op list" where
  "bothDone = [FetchDone 1 timedOut, Resume 1, FetchDone 0 timedOut, Resume 0]"

definition twoUrls :: run where
  "twoUrls = startJob 5 exampleUrls (Some 2)"

text \<open>
  A sitemap index \<open>http://r/\<close> with two children that share the page \<open>p2\<close>;
  every other URL answers 404. \<open>exampleParseUrl\<close> knows two URLs.
\<close>

definition exampleNet :: "string \<Rightarrow> sitemap_fetch" where
  "exampleNet u =
     (if u = ''http://r/''
      then SitemapResponds True 200 (Parsed [] [''http://a'', ''http://b'', ''http://a''])
      else if u = ''http://a'' then SitemapResponds True 200 (Parsed ['' p1 '', ''p2''] [])
      else if u = ''http://b''
      then SitemapResponds True 200 (Parsed [''p2'', ''p3'', []] [''http://r/'', ''http://c''])
      else SitemapResponds False 404 (Parsed [] []))"

definition exampleParseUrl :: "string \<Rightarrow> (string \<times> string) option" where
  "exampleParseUrl u =
     (if u = ''http://r'' then Some (''http:'', ''http://r/'')
      else if u = ''ftp://x'' then Some (''ftp:'', ''ftp://x'')
      else None)"


text \<open>
  Interleavings of the example job: the second URL answers; after a
  cancellation the first URL answers too, both workers resume and an observer
  attaches; a fault of worker 0 followed by the answer of the second URL.
\<close>

definition lateResult :: "op list" where
  "lateResult = [FetchDone 0 timedOut, Resume 0, Resume 1, Attach]"

definition oneDone :: "op list" where
  "oneDone = [FetchDone 1 timedOut]"

definition faultThenResult :: "op list" where
  "faultThenResult = [Fault 0 ''boom'', FetchDone 1 timedOut]"

text \<open>
  An observer attached from the start and one that attaches after the first
  result; then the same run up to the \<open>done\<close> event.
\<close>

definition lateObserver :: "op list" where
  "lateObserver = [Attach, FetchDone 1 timedOut]"

definition bothObservers :: "op list" where
  "bothObservers =
     [Attach, FetchDone 1 timedOut, Attach, FetchDone 0 timedOut, Resume 0, Resume 1]"

text \<open>
  Two runs in which worker 0 is rejected with the message \<open>msg\<close> while the
  fetch of \<open>https://b\<close> is in flight, each with two observers. In
  \<open>replayAfterFault\<close> the rejection is the first thing that happens to the job:
  the worker throws on the entry at index 0, and the first observer attaches
  after it. In \<open>liveThroughFault\<close> the first observer attaches at the start;
  worker 0 delivers the first result and throws on the next entry it claims.
  In both the second observer attaches after the fetch of \<open>https://b\<close> has
  settled. The worker throws, outside its \<open>try\<close> block, when the entry is a
  JSON object that has no conversion to a string.
\<close>

definition replayAfterFault :: "string \<Rightarrow> op list" where
  "replayAfterFault msg = [Fault 0 msg, Attach, FetchDone 1 timedOut, Attach]"

definition liveThroughFault :: "string \<Rightarrow> op list" where
  "liveThroughFault msg =
     [Attach, FetchDone 0 timedOut, Fault 0 msg, FetchDone 1 timedOut, Attach]"

text \<open>A network on which every URL is a sitemap with the one page \<open>p\<close>.\<close>

definition quietNet :: "string \<Rightarrow> sitemap_fetch" where
  "quietNet u = SitemapResponds True 200 (Parsed [''p''] [])"

section \<open>The result slots\<close>

lemma slotsInv_core: "core s = core t \<Longrightarrow> slotsInv s = slotsInv t"
  by (simp add: core_def slotsInv_def)

lemma core_pushJobEvent [simp]: "core (pushJobEvent e p s) = core s"
  by (simp add: core_def pushJobEvent_def)

lemma core_cleanupJob [simp]: "core (cleanupJob s) = core s"
  by (simp add: core_def cleanupJob_def)

lemma core_onFulfilled [simp]: "core (onFulfilled s) = core s"
  by (simp add: onFulfilled_def) (simp add: core_def)

lemma core_onRejected [simp]: "core (onRejected m s) = core s"
  by (simp add: onRejected_def) (simp add: core_def)

lemma core_settled [simp]: "core (s\<lparr>settled := b\<rparr>) = core s"
  by (simp add: core_def)

lemma core_whenAllDone [simp]: "core (whenAllDone s) = core s"
  by (simp add: whenAllDone_def)

lemma core_cancelJob [simp]: "core (cancelJob s) = core s"
  by (simp add: cancelJob_def Let_def) (simp add: core_def)

lemma core_attach [simp]: "core (attach s) = core s"
  by (simp add: attach_def Let_def core_def)

lemma core_closeConn [simp]: "core (closeConn c s) = core s"
  by (simp add: closeConn_def core_def)

lemma core_ping [simp]: "core (ping c s) = core s"
  by (simp add: ping_def core_def)

lemma filled_update_None:
  "n < length xs \<Longrightarrow> xs ! n = None \<Longrightarrow> filled (xs[n := Some v]) = Suc (filled xs)"
proof (induction xs arbitrary: n)
  case Nil
  then show ?case by simp
next
  case (Cons x xs)
  then show ?case by (cases n) (auto simp: filled_def)
qed

lemma filled_le: "filled xs \<le> length xs"
  by (simp add: filled_def)

lemma filled_full: "filled xs = length xs \<longleftrightarrow> (\<forall>n < length xs. xs ! n \<noteq> None)"
proof (induction xs)
  case Nil
  then show ?case by (simp add: filled_def)
next
  case (Cons x xs)
  have le: "filled xs \<le> length xs" by (rule filled_le)
  show ?case
  proof (cases x)
    case None
    then have "filled (x # xs) = filled xs" by (simp add: filled_def)
    then have "filled (x # xs) \<noteq> length (x # xs)" using le by simp
    moreover have "\<not> (\<forall>n < length (x # xs). (x # xs) ! n \<noteq> None)"
      using None by auto
    ultimately show ?thesis by blast
  next
    case (Some v)
    then have "filled (x # xs) = Suc (filled xs)" by (simp add: filled_def)
    moreover have "(\<forall>n < length (x # xs). (x # xs) ! n \<noteq> None) \<longleftrightarrow>
        (\<forall>n < length xs. xs ! n \<noteq> None)"
      using Some by (auto simp: nth_Cons split: nat.splits)
    ultimately show ?thesis using Cons.IH by simp
  qed
qed

lemma slotsInvI:
  assumes "length (results (job t)) = length (urls t)" "total (job t) = length (urls t)"
    "processed (job t) = filled (results (job t))"
    "\<And>k idx u. k < length (workers t) \<Longrightarrow> workers t ! k = Fetching idx u \<Longrightarrow>
        idx < cursor t \<and> idx < length (urls t) \<and> results (job t) ! idx = None \<and>
        u = normalizeUrl (urls t ! idx)"
    "\<And>k k' idx u u'. k < length (workers t) \<Longrightarrow> k' < length (workers t) \<Longrightarrow>
        workers t ! k = Fetching idx u \<Longrightarrow> workers t ! k' = Fetching idx u' \<Longrightarrow> k = k'"
    "\<And>n r. n < length (urls t) \<Longrightarrow> results (job t) ! n = Some r \<Longrightarrow>
        n < cursor t \<and> (\<exists>c. r = workerResult (normalizeUrl (urls t ! n)) c)"
  shows "slotsInv t"
  unfolding slotsInv_def using assms by blast

lemma slotsInv_exit:
  assumes "slotsInv s" "\<forall>n v. w \<noteq> Fetching n v" "k < length (workers s)"
  shows "slotsInv (s\<lparr>workers := (workers s)[k := w]\<rparr>)" (is "slotsInv ?t")
proof -
  have nth: "\<And>ka idx u. ka < length (workers s) \<Longrightarrow> workers ?t ! ka = Fetching idx u \<Longrightarrow>
      workers s ! ka = Fetching idx u"
    using assms(2,3) by (simp add: nth_list_update split: if_splits)
  show ?thesis
  proof (rule slotsInvI)
    fix ka idx u
    assume "ka < length (workers ?t)" "workers ?t ! ka = Fetching idx u"
    then have "workers s ! ka = Fetching idx u" "ka < length (workers s)"
      using nth[of ka idx u] by simp_all
    then show "idx < cursor ?t \<and> idx < length (urls ?t) \<and> results (job ?t) ! idx = None \<and>
        u = normalizeUrl (urls ?t ! idx)"
      using assms(1) unfolding slotsInv_def by simp
  next
    fix ka kb idx u u'
    assume "ka < length (workers ?t)" "kb < length (workers ?t)"
      "workers ?t ! ka = Fetching idx u" "workers ?t ! kb = Fetching idx u'"
    then have "workers s ! ka = Fetching idx u" "ka < length (workers s)"
      "workers s ! kb = Fetching idx u'" "kb < length (workers s)"
      using nth[of ka idx u] nth[of kb idx u'] by simp_all
    then show "ka = kb"
      using assms(1) unfolding slotsInv_def by blast
  next
    fix n r
    assume "n < length (urls ?t)" "results (job ?t) ! n = Some r"
    then show "n < cursor ?t \<and> (\<exists>c. r = workerResult (normalizeUrl (urls ?t ! n)) c)"
      using assms(1) unfolding slotsInv_def by simp
  qed (use assms(1) in \<open>simp_all add: slotsInv_def\<close>)
qed

lemma slotsInv_claim:
  assumes "slotsInv s" "k < length (workers s)" "cursor s < length (urls s)"
    "\<forall>idx u. workers s ! k \<noteq> Fetching idx u"
  shows "slotsInv (s\<lparr>cursor := Suc (cursor s),
            workers := (workers s)[k := Fetching (cursor s) (normalizeUrl (urls s ! cursor s))]\<rparr>)"
    (is "slotsInv ?t")
proof -
  let ?ws = "workers s" and ?c = "cursor s"
  have none: "results (job s) ! ?c = None"
    using assms(1,3) unfolding slotsInv_def
    by (cases "results (job s) ! ?c") auto
  have old: "\<And>ka idx u. ka < length ?ws \<Longrightarrow> ?ws ! ka = Fetching idx u \<Longrightarrow>
      idx < ?c \<and> idx < length (urls s) \<and> results (job s) ! idx = None \<and> u = normalizeUrl (urls s ! idx)"
    using assms(1) unfolding slotsInv_def by blast
  have dist: "\<And>ka kb idx u u'. ka < length ?ws \<Longrightarrow> kb < length ?ws \<Longrightarrow>
      ?ws ! ka = Fetching idx u \<Longrightarrow> ?ws ! kb = Fetching idx u' \<Longrightarrow> ka = kb"
    using assms(1) unfolding slotsInv_def by blast
  have nth: "\<And>ka. ka < length ?ws \<Longrightarrow> workers ?t ! ka =
      (if ka = k then Fetching ?c (normalizeUrl (urls s ! ?c)) else ?ws ! ka)"
    using assms(2) by (simp add: nth_list_update)
  have p2: "\<And>ka idx u. ka < length ?ws \<Longrightarrow> workers ?t ! ka = Fetching idx u \<Longrightarrow>
      idx < Suc ?c \<and> idx < length (urls s) \<and> results (job s) ! idx = None \<and> u = normalizeUrl (urls s ! idx)"
  proof -
    fix ka idx u assume a: "ka < length ?ws" "workers ?t ! ka = Fetching idx u"
    show "idx < Suc ?c \<and> idx < length (urls s) \<and> results (job s) ! idx = None \<and> u = normalizeUrl (urls s ! idx)"
    proof (cases "ka = k")
      case True
      then show ?thesis using a nth[OF a(1)] none assms(3) by auto
    next
      case False
      then have "?ws ! ka = Fetching idx u" using a nth[OF a(1)] by simp
      then show ?thesis using old[OF a(1)] less_Suc_eq by blast
    qed
  qed
  have p3: "\<And>ka kb idx u u'. ka < length ?ws \<Longrightarrow> kb < length ?ws \<Longrightarrow>
      workers ?t ! ka = Fetching idx u \<Longrightarrow> workers ?t ! kb = Fetching idx u' \<Longrightarrow> ka = kb"
  proof -
    fix ka kb idx u u'
    assume a: "ka < length ?ws" "kb < length ?ws"
      "workers ?t ! ka = Fetching idx u" "workers ?t ! kb = Fetching idx u'"
    show "ka = kb"
    proof (cases "ka = k"; cases "kb = k")
      assume "ka = k" "kb = k" then show ?thesis by simp
    next
      assume h: "ka = k" "kb \<noteq> k"
      then have "idx = ?c" "?ws ! kb = Fetching idx u'" using a nth by auto
      then show ?thesis using old[OF a(2)] by auto
    next
      assume h: "ka \<noteq> k" "kb = k"
      then have "idx = ?c" "?ws ! ka = Fetching idx u" using a nth by auto
      then show ?thesis using old[OF a(1)] by auto
    next
      assume h: "ka \<noteq> k" "kb \<noteq> k"
      then have "?ws ! ka = Fetching idx u" "?ws ! kb = Fetching idx u'" using a nth by auto
      then show ?thesis using dist a by blast
    qed
  qed
  have p4: "\<And>n r. n < length (urls s) \<Longrightarrow> results (job s) ! n = Some r \<Longrightarrow>
      n < Suc ?c \<and> (\<exists>c. r = workerResult (normalizeUrl (urls s ! n)) c)"
    using assms(1) unfolding slotsInv_def using less_Suc_eq by blast
  have p1: "length (results (job s)) = length (urls s) \<and> total (job s) = length (urls s) \<and>
      processed (job s) = filled (results (job s))"
    using assms(1) unfolding slotsInv_def by blast
  show ?thesis
  proof (rule slotsInvI)
    fix ka idx u
    assume "ka < length (workers ?t)" "workers ?t ! ka = Fetching idx u"
    then show "idx < cursor ?t \<and> idx < length (urls ?t) \<and> results (job ?t) ! idx = None \<and>
        u = normalizeUrl (urls ?t ! idx)"
      using p2[of ka idx u] by simp
  next
    fix ka kb idx u u'
    assume "ka < length (workers ?t)" "kb < length (workers ?t)"
      "workers ?t ! ka = Fetching idx u" "workers ?t ! kb = Fetching idx u'"
    then show "ka = kb" using p3[of ka kb idx u u'] by simp
  next
    fix n r
    assume "n < length (urls ?t)" "results (job ?t) ! n = Some r"
    then show "n < cursor ?t \<and> (\<exists>c. r = workerResult (normalizeUrl (urls ?t ! n)) c)"
      using p4[of n r] by simp
  qed (use p1 in simp_all)
qed

lemma slotsInv_cursor:
  assumes "slotsInv s"
  shows "slotsInv (s\<lparr>cursor := Suc (cursor s)\<rparr>)"
  using assms unfolding slotsInv_def
  by (simp add: less_Suc_eq)

lemma slotsInv_workerTop:
  assumes "slotsInv s" "k < length (workers s)" "workers s ! k = Ready"
  shows "slotsInv (workerTop k s)"
proof -
  have a: "slotsInv (s\<lparr>workers := (workers s)[k := Finished]\<rparr>)"
    using assms by (intro slotsInv_exit) auto
  have "slotsInv ((s\<lparr>cursor := Suc (cursor s)\<rparr>)\<lparr>workers := (workers (s\<lparr>cursor := Suc (cursor s)\<rparr>))[k := Finished]\<rparr>)"
    using assms slotsInv_cursor by (intro slotsInv_exit) auto
  then have b: "slotsInv (s\<lparr>cursor := Suc (cursor s), workers := (workers s)[k := Finished]\<rparr>)"
    by simp
  have c: "cursor s < length (urls s) \<Longrightarrow> slotsInv (s\<lparr>cursor := Suc (cursor s),
            workers := (workers s)[k := Fetching (cursor s) (normalizeUrl (urls s ! cursor s))]\<rparr>)"
    using assms by (intro slotsInv_claim) auto
  show ?thesis
    using a b c by (simp add: workerTop_def Let_def not_le)
qed

lemma slotsInv_deliver:
  assumes "slotsInv s" "k < length (workers s)" "workers s ! k = Fetching idx u"
    "\<not> cancelled (job s)"
  shows "slotsInv ((onResult idx (workerResult u c) s)\<lparr>workers := (workers s)[k := Ready]\<rparr>)"
proof -
  let ?ws = "workers s" and ?rs = "results (job s)"
  have f: "idx < cursor s" "idx < length (urls s)" "?rs ! idx = None"
    "u = normalizeUrl (urls s ! idx)"
    using assms(1,2,3) unfolding slotsInv_def by blast+
  have len: "length ?rs = length (urls s)" "total (job s) = length (urls s)"
    "processed (job s) = filled ?rs"
    using assms(1) unfolding slotsInv_def by blast+
  have old: "\<And>ka n v. ka < length ?ws \<Longrightarrow> ?ws ! ka = Fetching n v \<Longrightarrow>
      n < cursor s \<and> n < length (urls s) \<and> ?rs ! n = None \<and> v = normalizeUrl (urls s ! n)"
    using assms(1) unfolding slotsInv_def by blast
  have dist: "\<And>ka kb n v v'. ka < length ?ws \<Longrightarrow> kb < length ?ws \<Longrightarrow>
      ?ws ! ka = Fetching n v \<Longrightarrow> ?ws ! kb = Fetching n v' \<Longrightarrow> ka = kb"
    using assms(1) unfolding slotsInv_def by blast
  have fil: "\<And>n r. n < length (urls s) \<Longrightarrow> ?rs ! n = Some r \<Longrightarrow>
      n < cursor s \<and> (\<exists>c. r = workerResult (normalizeUrl (urls s ! n)) c)"
    using assms(1) unfolding slotsInv_def by blast
  define t where "t = s\<lparr>workers := ?ws[k := Ready],
     job := (job s)\<lparr>processed := Suc (processed (job s)),
        results := ?rs[idx := Some (workerResult u c)]\<rparr>\<rparr>"
  have "core ((onResult idx (workerResult u c) s)\<lparr>workers := ?ws[k := Ready]\<rparr>) = core t"
    using assms(4) f len
    by (simp add: onResult_def Let_def core_def pushJobEvent_def arraySet_def t_def)
  moreover have "slotsInv t"
  proof (rule slotsInvI)
    show "processed (job t) = filled (results (job t))"
      using f len by (simp add: t_def filled_update_None)
  next
    fix ka n v
    assume a: "ka < length (workers t)" "workers t ! ka = Fetching n v"
    then have b: "ka < length ?ws" "?ws ! ka = Fetching n v" "ka \<noteq> k"
      using assms(2) by (auto simp: t_def nth_list_update split: if_splits)
    then have "n \<noteq> idx" using dist[of ka k n v u] assms(2,3) by auto
    then show "n < cursor t \<and> n < length (urls t) \<and> results (job t) ! n = None \<and>
        v = normalizeUrl (urls t ! n)"
      using old[OF b(1,2)] by (simp add: t_def)
  next
    fix ka kb n v v'
    assume a: "ka < length (workers t)" "kb < length (workers t)"
      "workers t ! ka = Fetching n v" "workers t ! kb = Fetching n v'"
    then have "ka < length ?ws" "?ws ! ka = Fetching n v" "kb < length ?ws" "?ws ! kb = Fetching n v'"
      using assms(2) by (auto simp: t_def nth_list_update split: if_splits)
    then show "ka = kb" using dist by blast
  next
    fix n r
    assume a: "n < length (urls t)" "results (job t) ! n = Some r"
    show "n < cursor t \<and> (\<exists>c. r = workerResult (normalizeUrl (urls t ! n)) c)"
    proof (cases "n = idx")
      case True
      then have "r = workerResult u c" using a f len by (simp add: t_def)
      then show ?thesis using True f by (auto simp: t_def)
    next
      case False
      then have "?rs ! n = Some r" "n < length (urls s)" using a by (simp_all add: t_def)
      then show ?thesis using fil[of n r] by (simp add: t_def)
    qed
  qed (use len in \<open>simp_all add: t_def\<close>)
  ultimately show ?thesis
    using slotsInv_core by blast
qed

lemma slotsInv_whenAllDone: "slotsInv t \<Longrightarrow> slotsInv (whenAllDone t)"
  using slotsInv_core[of "whenAllDone t" t] by simp

lemma slotsInv_step:
  assumes "slotsInv s"
  shows "slotsInv (step x s)"
proof (cases x)
  case (Resume k)
  show ?thesis
  proof (cases "k < length (workers s) \<and> workers s ! k = Ready")
    case True
    then have "slotsInv (whenAllDone (workerTop k s))"
      using assms by (intro slotsInv_whenAllDone slotsInv_workerTop) auto
    then show ?thesis using Resume True by simp
  next
    case False
    then show ?thesis using assms Resume by auto
  qed
next
  case (FetchDone k c)
  show ?thesis
  proof (cases "k < length (workers s)")
    case False
    then show ?thesis using assms FetchDone by simp
  next
    case True
    show ?thesis
    proof (cases "workers s ! k")
      case (Fetching idx u)
      show ?thesis
      proof (cases "cancelled (job s)")
        case True
        have "slotsInv (whenAllDone (s\<lparr>workers := (workers s)[k := Finished]\<rparr>))"
          using assms \<open>k < length (workers s)\<close>
          by (intro slotsInv_whenAllDone slotsInv_exit) auto
        then show ?thesis
          using FetchDone Fetching True \<open>k < length (workers s)\<close>
          by (simp add: workerDeliver_def)
      next
        case False
        then show ?thesis
          using FetchDone Fetching \<open>k < length (workers s)\<close>
            slotsInv_deliver[OF assms _ Fetching False]
          by (simp add: workerDeliver_def)
      qed
    qed (use assms FetchDone True in simp_all)
  qed
next
  case (Fault k msg)
  show ?thesis
  proof (cases "k < length (workers s) \<and> workers s ! k \<noteq> Finished \<and> workers s ! k \<noteq> Rejected")
    case True
    have a: "slotsInv (s\<lparr>workers := (workers s)[k := Rejected]\<rparr>)"
      using assms True by (intro slotsInv_exit) auto
    have "core (onRejected msg (s\<lparr>workers := (workers s)[k := Rejected], settled := True\<rparr>))
        = core (s\<lparr>workers := (workers s)[k := Rejected]\<rparr>)"
      by simp
    then have "slotsInv (onRejected msg (s\<lparr>workers := (workers s)[k := Rejected], settled := True\<rparr>))"
      using a slotsInv_core by blast
    then show ?thesis
      using Fault True a by (simp add: Let_def)
  next
    case False
    then show ?thesis using assms Fault by auto
  qed
next
  case Cancel
  then show ?thesis using assms slotsInv_core[of "cancelJob s" s] by simp
next
  case Attach
  then show ?thesis using assms slotsInv_core[of "attach s" s] by simp
next
  case (Close c)
  then show ?thesis using assms slotsInv_core[of "closeConn c s" s] by simp
next
  case (Heartbeat c)
  then show ?thesis using assms slotsInv_core[of "ping c s" s] by simp
qed

lemma filled_replicate_None [simp]: "filled (replicate n None) = 0"
  by (simp add: filled_def)

lemma workers_workerTop:
  "length (workers (workerTop k t)) = length (workers t) \<and>
   (\<forall>j. j \<noteq> k \<longrightarrow> workers (workerTop k t) ! j = workers t ! j)"
  by (simp add: workerTop_def Let_def)

lemma slotsInv_spawn:
  assumes "slotsInv t" "\<forall>k \<in> set ks. k < length (workers t) \<and> workers t ! k = Ready" "distinct ks"
  shows "slotsInv (foldl (\<lambda>t k. workerTop k t) t ks)"
  using assms
proof (induction ks arbitrary: t)
  case Nil
  then show ?case by simp
next
  case (Cons k ks)
  have a: "slotsInv (workerTop k t)"
    using Cons.prems by (intro slotsInv_workerTop) auto
  have b: "\<forall>j \<in> set ks. j < length (workers (workerTop k t)) \<and> workers (workerTop k t) ! j = Ready"
    using Cons.prems workers_workerTop[of k t] by auto
  show ?case
    using Cons.IH[OF a b] Cons.prems(3) by simp
qed

lemma slotsInv_startJob: "slotsInv (startJob dc us c)"
proof -
  define s0 where "s0 = pushJobEvent ''start'' (PStart (length us))
          \<lparr>job = createJob us, conns = [], urls = us, cursor = 0, workers = [], settled = False\<rparr>"
  have a: "slotsInv (s0\<lparr>workers := replicate w Ready\<rparr>)" for w
    by (rule slotsInvI) (simp_all add: s0_def pushJobEvent_def createJob_def)
  have "slotsInv (foldl (\<lambda>t k. workerTop k t) (s0\<lparr>workers := replicate w Ready\<rparr>) [0..<w])" for w
    by (rule slotsInv_spawn[OF a]) simp_all
  then show ?thesis
    unfolding startJob_def runStreaming_def s0_def[symmetric] Let_def
    by (intro slotsInv_whenAllDone) simp
qed

lemma slotsInv_runOps: "slotsInv s \<Longrightarrow> slotsInv (runOps ops s)"
  unfolding runOps_def
  by (induction ops arbitrary: s) (simp_all add: slotsInv_step)

section \<open>Completion of the pool\<close>

lemma poolInv_view: "pview t = pview s \<Longrightarrow> poolInv t = poolInv s"
  by (simp add: pview_def poolInv_def)

lemma doneEvents_pushJobEvent:
  "doneEvents (pushJobEvent ev p s) = (if ev = ''done'' then insert p (doneEvents s) else doneEvents s)"
  by (auto simp: doneEvents_def pushJobEvent_def)

lemma doneEvents_simps [simp]:
  "doneEvents (cleanupJob s) = doneEvents s"
  "doneEvents (s\<lparr>settled := b\<rparr>) = doneEvents s"
  "doneEvents (s\<lparr>workers := ws\<rparr>) = doneEvents s"
  "doneEvents (s\<lparr>cursor := n\<rparr>) = doneEvents s"
  "doneEvents (s\<lparr>job := (job s)\<lparr>done := d\<rparr>\<rparr>) = doneEvents s"
  "doneEvents (s\<lparr>job := (job s)\<lparr>cancelled := d\<rparr>\<rparr>) = doneEvents s"
  by (simp_all add: doneEvents_def cleanupJob_def)

lemma pview_pushJobEvent [simp]:
  "ev \<noteq> ''done'' \<Longrightarrow> pview (pushJobEvent ev p s) = pview s"
  by (simp add: pview_def doneEvents_pushJobEvent) (simp add: pushJobEvent_def)

lemma pview_simps [simp]:
  "pview (cleanupJob s) = pview s"
  "pview (s\<lparr>settled := b\<rparr>) = pview s"
  "pview (attach s) = pview s"
  "pview (closeConn c s) = pview s"
  "pview (ping c s) = pview s"
  by (simp_all add: pview_def cleanupJob_def attach_def closeConn_def ping_def Let_def doneEvents_def)

lemma poolInv_done: "poolInv s \<Longrightarrow> poolInv (s\<lparr>job := (job s)\<lparr>done := True\<rparr>\<rparr>)"
  by (simp add: poolInv_def)

lemma poolInv_cancelled: "poolInv s \<Longrightarrow> poolInv (s\<lparr>job := (job s)\<lparr>cancelled := True\<rparr>\<rparr>)"
  by (simp add: poolInv_def)

lemma poolInv_failed:
  assumes "poolInv s"
  shows "poolInv (cleanupJob (pushJobEvent ''failed'' p (s\<lparr>job := (job s)\<lparr>done := True\<rparr>\<rparr>)))"
proof -
  have "pview (cleanupJob (pushJobEvent ''failed'' p (s\<lparr>job := (job s)\<lparr>done := True\<rparr>\<rparr>)))
      = pview (s\<lparr>job := (job s)\<lparr>done := True\<rparr>\<rparr>)"
    by simp
  then show ?thesis
    using poolInv_done[OF assms] poolInv_view by blast
qed

lemma poolInv_onRejected: "poolInv s \<Longrightarrow> poolInv (onRejected msg s)"
  by (simp add: onRejected_def poolInv_failed)

lemma poolInv_cancelJob: "poolInv s \<Longrightarrow> poolInv (cancelJob s)"
  using poolInv_failed[of "s\<lparr>job := (job s)\<lparr>cancelled := True\<rparr>\<rparr>" "PFailed ''cancelled''"]
  by (simp add: cancelJob_def Let_def poolInv_cancelled)

lemma poolInv_settled: "poolInv s \<Longrightarrow> poolInv (s\<lparr>settled := b\<rparr>)"
  using poolInv_view[of "s\<lparr>settled := b\<rparr>" s] by simp

lemma poolInv_complete:
  assumes "poolInv s" "slotsInv s" "\<not> cancelled (job s)"
    "\<forall>w \<in> set (workers s). w = Finished"
  shows "poolInv (cleanupJob (pushJobEvent ''done'' (PDone (processed (job s)) (total (job s)))
           (s\<lparr>job := (job s)\<lparr>done := True\<rparr>\<rparr>)))" (is "poolInv ?t")
proof -
  have fin: "\<And>k. k < length (workers s) \<Longrightarrow> workers s ! k = Finished"
    using assms(4) by simp
  have ne: "workers s \<noteq> []" using assms(1) by (simp add: poolInv_def)
  then have "workers s ! 0 = Finished" "0 < length (workers s)" using fin by auto
  then have cur: "length (urls s) \<le> cursor s"
    using assms(1,3) unfolding poolInv_def by blast
  have full: "\<And>n. n < length (urls s) \<Longrightarrow> results (job s) ! n \<noteq> None"
  proof -
    fix n assume n: "n < length (urls s)"
    have "\<forall>k < length (workers s). workers s ! k \<noteq> Rejected" using fin by simp
    then have "results (job s) ! n \<noteq> None \<or> (\<exists>k < length (workers s). \<exists>u. workers s ! k = Fetching n u)"
      using assms(1,3) n cur unfolding poolInv_def by (meson less_le_trans)
    then show "results (job s) ! n \<noteq> None" using fin by auto
  qed
  have len: "length (results (job s)) = length (urls s)" "total (job s) = length (urls s)"
    "processed (job s) = filled (results (job s))"
    using assms(2) unfolding slotsInv_def by blast+
  have "filled (results (job s)) = length (results (job s))"
    using full len filled_full[of "results (job s)"] by simp
  then have proc: "processed (job s) = total (job s)" using len by simp
  have pv: "pview ?t = (workers s, cancelled (job s), urls s, cursor s, results (job s),
      insert (PDone (total (job s)) (total (job s))) (doneEvents s), True, total (job s))"
    by (simp add: pview_def doneEvents_pushJobEvent proc) (simp add: pushJobEvent_def cleanupJob_def)
  have old: "\<forall>p \<in> doneEvents s. p = PDone (total (job s)) (total (job s))"
    using assms(1) unfolding poolInv_def by blast
  show ?thesis
    unfolding poolInv_def
    using pv ne cur fin full old assms(3)
    by (simp add: pview_def)
qed

lemma poolInv_onFulfilled:
  assumes "poolInv s" "slotsInv s" "\<forall>w \<in> set (workers s). w = Finished"
  shows "poolInv (onFulfilled s)"
  using assms poolInv_complete[of s] poolInv_failed[of s]
  by (simp add: onFulfilled_def)

lemma slotsInv_settled: "slotsInv s \<Longrightarrow> slotsInv (s\<lparr>settled := b\<rparr>)"
  using slotsInv_core[of "s\<lparr>settled := b\<rparr>" s] by simp

lemma poolInv_whenAllDone:
  assumes "poolInv s" "slotsInv s"
  shows "poolInv (whenAllDone s)"
  using assms poolInv_onFulfilled[of "s\<lparr>settled := True\<rparr>"] poolInv_settled slotsInv_settled
  by (simp add: whenAllDone_def)

lemma poolInvI:
  assumes "workers t \<noteq> []"
    "\<And>k. \<not> cancelled (job t) \<Longrightarrow> k < length (workers t) \<Longrightarrow> workers t ! k = Finished \<Longrightarrow>
        length (urls t) \<le> cursor t"
    "\<And>n. \<not> cancelled (job t) \<Longrightarrow> \<forall>k < length (workers t). workers t ! k \<noteq> Rejected \<Longrightarrow>
        n < length (urls t) \<Longrightarrow> n < cursor t \<Longrightarrow>
        results (job t) ! n \<noteq> None \<or> (\<exists>k < length (workers t). \<exists>u. workers t ! k = Fetching n u)"
    "\<And>p. p \<in> doneEvents t \<Longrightarrow>
         done (job t) \<and> (\<forall>k < length (workers t). workers t ! k = Finished) \<and>
         (\<forall>n < length (urls t). results (job t) ! n \<noteq> None) \<and>
         p = PDone (total (job t)) (total (job t))"
  shows "poolInv t"
  unfolding poolInv_def using assms by blast

lemma noDone:
  assumes "poolInv s" "k < length (workers s)" "workers s ! k \<noteq> Finished"
  shows "doneEvents s = {}"
  using assms unfolding poolInv_def by blast

lemma poolInv_exit_cancelled:
  assumes "poolInv s" "cancelled (job s)" "k < length (workers s)" "workers s ! k \<noteq> Finished"
  shows "poolInv (s\<lparr>workers := (workers s)[k := w]\<rparr>)"
proof (rule poolInvI)
  show "workers (s\<lparr>workers := (workers s)[k := w]\<rparr>) \<noteq> []"
    using assms(1) by (simp add: poolInv_def)
qed (use assms(2) noDone[OF assms(1,3,4)] in simp_all)

lemma poolInv_reject:
  assumes "poolInv s" "k < length (workers s)" "workers s ! k \<noteq> Finished"
  shows "poolInv (s\<lparr>workers := (workers s)[k := Rejected]\<rparr>)" (is "poolInv ?t")
proof (rule poolInvI)
  show "workers ?t \<noteq> []"
    using assms(1) by (simp add: poolInv_def)
next
  fix j
  assume a: "\<not> cancelled (job ?t)" "j < length (workers ?t)" "workers ?t ! j = Finished"
  then have "workers s ! j = Finished" "j < length (workers s)"
    using assms(2) by (auto simp: nth_list_update split: if_splits)
  then show "length (urls ?t) \<le> cursor ?t"
    using assms(1) a(1) unfolding poolInv_def by simp
next
  fix n
  assume "\<forall>j < length (workers ?t). workers ?t ! j \<noteq> Rejected"
  then have False using assms(2) by (auto simp: nth_list_update)
  then show "results (job ?t) ! n \<noteq> None \<or> (\<exists>k < length (workers ?t). \<exists>u. workers ?t ! k = Fetching n u)"
    by simp
qed (use noDone[OF assms] in simp)

lemma poolInv_workerTop:
  assumes "poolInv s" "k < length (workers s)" "workers s ! k = Ready"
  shows "poolInv (workerTop k s)"
proof (cases "cancelled (job s)")
  case True
  then show ?thesis
    using assms poolInv_exit_cancelled[of s k Finished] by (simp add: workerTop_def)
next
  case nc: False
  let ?ws = "workers s"
  have ne: "?ws \<noteq> []" using assms(1) by (simp add: poolInv_def)
  have k2: "\<And>j. j < length ?ws \<Longrightarrow> ?ws ! j = Finished \<Longrightarrow> length (urls s) \<le> cursor s"
    using assms(1) nc unfolding poolInv_def by blast
  have k1: "\<And>n. \<forall>j < length ?ws. ?ws ! j \<noteq> Rejected \<Longrightarrow> n < length (urls s) \<Longrightarrow> n < cursor s \<Longrightarrow>
      results (job s) ! n \<noteq> None \<or> (\<exists>j < length ?ws. \<exists>u. ?ws ! j = Fetching n u)"
    using assms(1) nc unfolding poolInv_def by blast
  have nd: "doneEvents s = {}" using noDone[OF assms(1,2)] assms(3) by simp
  show ?thesis
  proof (cases "length (urls s) \<le> cursor s")
    case True
    let ?t = "s\<lparr>cursor := Suc (cursor s), workers := ?ws[k := Finished]\<rparr>"
    have "poolInv ?t"
    proof (rule poolInvI)
      fix n
      assume a: "\<forall>j < length (workers ?t). workers ?t ! j \<noteq> Rejected" "n < length (urls ?t)"
      have "\<forall>j < length ?ws. ?ws ! j \<noteq> Rejected"
      proof (intro allI impI)
        fix j assume "j < length ?ws"
        then show "?ws ! j \<noteq> Rejected"
          using a(1) assms(2,3) by (cases "j = k") (auto simp: nth_list_update)
      qed
      then have "results (job s) ! n \<noteq> None \<or> (\<exists>j < length ?ws. \<exists>u. ?ws ! j = Fetching n u)"
        using k1[of n] a(2) True by simp
      then show "results (job ?t) ! n \<noteq> None \<or> (\<exists>j < length (workers ?t). \<exists>u. workers ?t ! j = Fetching n u)"
      proof
        assume "results (job s) ! n \<noteq> None" then show ?thesis by simp
      next
        assume "\<exists>j < length ?ws. \<exists>u. ?ws ! j = Fetching n u"
        then obtain j u where j: "j < length ?ws" "?ws ! j = Fetching n u" by blast
        then have "j \<noteq> k" using assms(3) by auto
        then have "workers ?t ! j = Fetching n u" using j by simp
        then show ?thesis using j(1) by auto
      qed
    qed (use ne nd True in simp_all)
    then show ?thesis using nc True by (simp add: workerTop_def Let_def)
  next
    case False
    let ?t = "s\<lparr>cursor := Suc (cursor s),
        workers := ?ws[k := Fetching (cursor s) (normalizeUrl (urls s ! cursor s))]\<rparr>"
    have "poolInv ?t"
    proof (rule poolInvI)
      fix j
      assume a: "j < length (workers ?t)" "workers ?t ! j = Finished"
      then have "?ws ! j = Finished" "j < length ?ws"
        using assms(2) by (auto simp: nth_list_update split: if_splits)
      then show "length (urls ?t) \<le> cursor ?t" using k2[of j] by simp
    next
      fix n
      assume a: "\<forall>j < length (workers ?t). workers ?t ! j \<noteq> Rejected" "n < length (urls ?t)"
        "n < cursor ?t"
      show "results (job ?t) ! n \<noteq> None \<or> (\<exists>j < length (workers ?t). \<exists>u. workers ?t ! j = Fetching n u)"
      proof (cases "n = cursor s")
        case True
        then have "workers ?t ! k = Fetching n (normalizeUrl (urls s ! cursor s))"
          using assms(2) by simp
        then show ?thesis using assms(2) by auto
      next
        case ncur: False
        have "\<forall>j < length ?ws. ?ws ! j \<noteq> Rejected"
        proof (intro allI impI)
          fix j assume "j < length ?ws"
          then show "?ws ! j \<noteq> Rejected"
            using a(1) assms(2,3) by (cases "j = k") (auto simp: nth_list_update)
        qed
        then have "results (job s) ! n \<noteq> None \<or> (\<exists>j < length ?ws. \<exists>u. ?ws ! j = Fetching n u)"
          using k1[of n] a(2,3) ncur by simp
        then show ?thesis
        proof
          assume "results (job s) ! n \<noteq> None" then show ?thesis by simp
        next
          assume "\<exists>j < length ?ws. \<exists>u. ?ws ! j = Fetching n u"
          then obtain j u where j: "j < length ?ws" "?ws ! j = Fetching n u" by blast
          then have "j \<noteq> k" using assms(3) by auto
          then have "workers ?t ! j = Fetching n u" using j by simp
          then show ?thesis using j(1) by auto
        qed
      qed
    qed (use ne nd in simp_all)
    then show ?thesis using nc False by (simp add: workerTop_def Let_def)
  qed
qed

lemma poolInv_deliver:
  assumes "poolInv s" "slotsInv s" "k < length (workers s)" "workers s ! k = Fetching idx u"
    "\<not> cancelled (job s)"
  shows "poolInv ((onResult idx r s)\<lparr>workers := (workers s)[k := Ready]\<rparr>)"
proof -
  let ?ws = "workers s" and ?rs = "results (job s)"
  have f: "idx < length (urls s)" "length ?rs = length (urls s)"
    using assms(2,3,4) unfolding slotsInv_def by blast+
  have ne: "?ws \<noteq> []" using assms(1) by (simp add: poolInv_def)
  have k2: "\<And>j. j < length ?ws \<Longrightarrow> ?ws ! j = Finished \<Longrightarrow> length (urls s) \<le> cursor s"
    using assms(1,5) unfolding poolInv_def by blast
  have k1: "\<And>n. \<forall>j < length ?ws. ?ws ! j \<noteq> Rejected \<Longrightarrow> n < length (urls s) \<Longrightarrow> n < cursor s \<Longrightarrow>
      ?rs ! n \<noteq> None \<or> (\<exists>j < length ?ws. \<exists>u. ?ws ! j = Fetching n u)"
    using assms(1,5) unfolding poolInv_def by blast
  have nd: "doneEvents s = {}" using noDone[OF assms(1,3)] assms(4) by simp
  define t where "t = s\<lparr>workers := ?ws[k := Ready],
     job := (job s)\<lparr>results := ?rs[idx := Some r]\<rparr>\<rparr>"
  have "pview ((onResult idx r s)\<lparr>workers := ?ws[k := Ready]\<rparr>) = pview t"
    using assms(5) f
    by (simp add: onResult_def Let_def pview_def arraySet_def t_def doneEvents_def pushJobEvent_def)
  moreover have "poolInv t"
  proof (rule poolInvI)
    fix j
    assume a: "j < length (workers t)" "workers t ! j = Finished"
    then have "?ws ! j = Finished" "j < length ?ws"
      using assms(3) by (auto simp: t_def nth_list_update split: if_splits)
    then show "length (urls t) \<le> cursor t" using k2[of j] by (simp add: t_def)
  next
    fix n
    assume a: "\<forall>j < length (workers t). workers t ! j \<noteq> Rejected" "n < length (urls t)"
      "n < cursor t"
    show "results (job t) ! n \<noteq> None \<or> (\<exists>j < length (workers t). \<exists>v. workers t ! j = Fetching n v)"
    proof (cases "n = idx")
      case True
      then show ?thesis using f by (simp add: t_def)
    next
      case nidx: False
      have "\<forall>j < length ?ws. ?ws ! j \<noteq> Rejected"
      proof (intro allI impI)
        fix j assume "j < length ?ws"
        then show "?ws ! j \<noteq> Rejected"
          using a(1) assms(3,4) by (cases "j = k") (auto simp: t_def nth_list_update)
      qed
      then have "?rs ! n \<noteq> None \<or> (\<exists>j < length ?ws. \<exists>v. ?ws ! j = Fetching n v)"
        using k1[of n] a(2,3) by (simp add: t_def)
      then show ?thesis
      proof
        assume "?rs ! n \<noteq> None" then show ?thesis using nidx by (simp add: t_def)
      next
        assume "\<exists>j < length ?ws. \<exists>v. ?ws ! j = Fetching n v"
        then obtain j v where j: "j < length ?ws" "?ws ! j = Fetching n v" by blast
        then have "j \<noteq> k" using assms(4) nidx by auto
        then have "workers t ! j = Fetching n v" using j by (simp add: t_def)
        then show ?thesis using j(1) by (auto simp: t_def)
      qed
    qed
  next
    fix p assume "p \<in> doneEvents t"
    then have False using nd by (simp add: t_def doneEvents_def)
    then show "done (job t) \<and> (\<forall>k < length (workers t). workers t ! k = Finished) \<and>
         (\<forall>n < length (urls t). results (job t) ! n \<noteq> None) \<and>
         p = PDone (total (job t)) (total (job t))" by simp
  qed (use ne in \<open>simp_all add: t_def\<close>)
  ultimately show ?thesis using poolInv_view by blast
qed

lemma poolInv_step:
  assumes "poolInv s" "slotsInv s"
  shows "poolInv (step x s)"
proof (cases x)
  case (Resume k)
  show ?thesis
  proof (cases "k < length (workers s) \<and> workers s ! k = Ready")
    case True
    then have "poolInv (workerTop k s)" "slotsInv (workerTop k s)"
      using assms poolInv_workerTop slotsInv_workerTop by blast+
    then show ?thesis using Resume True poolInv_whenAllDone by simp
  next
    case False
    then show ?thesis using assms Resume by auto
  qed
next
  case (FetchDone k c)
  show ?thesis
  proof (cases "k < length (workers s)")
    case False
    then show ?thesis using assms FetchDone by simp
  next
    case True
    show ?thesis
    proof (cases "workers s ! k")
      case (Fetching idx u)
      show ?thesis
      proof (cases "cancelled (job s)")
        case c: True
        have "poolInv (s\<lparr>workers := (workers s)[k := Finished]\<rparr>)"
          using assms(1) c True Fetching by (intro poolInv_exit_cancelled) auto
        moreover have "slotsInv (s\<lparr>workers := (workers s)[k := Finished]\<rparr>)"
          using assms(2) True by (intro slotsInv_exit) auto
        ultimately show ?thesis
          using FetchDone Fetching c True poolInv_whenAllDone
          by (simp add: workerDeliver_def)
      next
        case False
        then show ?thesis
          using FetchDone Fetching True poolInv_deliver[OF assms True Fetching False]
          by (simp add: workerDeliver_def)
      qed
    qed (use assms FetchDone True in simp_all)
  qed
next
  case (Fault k msg)
  show ?thesis
  proof (cases "k < length (workers s) \<and> workers s ! k \<noteq> Finished \<and> workers s ! k \<noteq> Rejected")
    case True
    have a: "poolInv (s\<lparr>workers := (workers s)[k := Rejected]\<rparr>)"
      using assms True by (intro poolInv_reject) auto
    then have "poolInv (onRejected msg (s\<lparr>workers := (workers s)[k := Rejected], settled := True\<rparr>))"
      using poolInv_settled[OF a, of True] by (intro poolInv_onRejected) simp
    then show ?thesis
      using Fault True a by (simp add: Let_def)
  next
    case False
    then show ?thesis using assms Fault by auto
  qed
next
  case Cancel
  then show ?thesis using assms poolInv_cancelJob by simp
next
  case Attach
  then show ?thesis using assms poolInv_view[of "attach s" s] by simp
next
  case (Close c)
  then show ?thesis using assms poolInv_view[of "closeConn c s" s] by simp
next
  case (Heartbeat c)
  then show ?thesis using assms poolInv_view[of "ping c s" s] by simp
qed

lemma poolInv_spawn:
  assumes "poolInv t" "\<forall>k \<in> set ks. k < length (workers t) \<and> workers t ! k = Ready" "distinct ks"
  shows "poolInv (foldl (\<lambda>t k. workerTop k t) t ks)"
  using assms
proof (induction ks arbitrary: t)
  case Nil
  then show ?case by simp
next
  case (Cons k ks)
  have a: "poolInv (workerTop k t)"
    using Cons.prems by (intro poolInv_workerTop) auto
  have b: "\<forall>j \<in> set ks. j < length (workers (workerTop k t)) \<and> workers (workerTop k t) ! j = Ready"
    using Cons.prems workers_workerTop[of k t] by auto
  show ?case
    using Cons.IH[OF a b] Cons.prems(3) by simp
qed

lemma poolInv_startJob: "poolInv (startJob dc us c)"
proof -
  define s0 where "s0 = pushJobEvent ''start'' (PStart (length us))
          \<lparr>job = createJob us, conns = [], urls = us, cursor = 0, workers = [], settled = False\<rparr>"
  have a: "slotsInv (s0\<lparr>workers := replicate w Ready\<rparr>)" for w
    by (rule slotsInvI) (simp_all add: s0_def pushJobEvent_def createJob_def)
  have b: "0 < w \<Longrightarrow> poolInv (s0\<lparr>workers := replicate w Ready\<rparr>)" for w
    by (rule poolInvI) (auto simp: s0_def pushJobEvent_def createJob_def doneEvents_def)
  have "0 < w \<Longrightarrow> poolInv (foldl (\<lambda>t k. workerTop k t) (s0\<lparr>workers := replicate w Ready\<rparr>) [0..<w])" for w
    by (rule poolInv_spawn[OF b]) simp_all
  moreover have "slotsInv (foldl (\<lambda>t k. workerTop k t) (s0\<lparr>workers := replicate w Ready\<rparr>) [0..<w])" for w
    by (rule slotsInv_spawn[OF a]) simp_all
  ultimately show ?thesis
    unfolding startJob_def runStreaming_def s0_def[symmetric] Let_def
    by (intro poolInv_whenAllDone) simp_all
qed

lemma invs_runOps: "slotsInv s \<Longrightarrow> poolInv s \<Longrightarrow> slotsInv (runOps ops s) \<and> poolInv (runOps ops s)"
  unfolding runOps_def
  by (induction ops arbitrary: s) (simp_all add: slotsInv_step poolInv_step)

lemma url_workerResult [simp]: "url (workerResult u c) = u"
  by (simp add: workerResult_def checkUrl_def emptyResult_def analyse_def Let_def
      split: checked.splits fetched.splits body.splits list.splits)

lemma core_eqD:
  "core t = core s \<Longrightarrow>
     urls t = urls s \<and> cursor t = cursor s \<and> workers t = workers s \<and>
     total (job t) = total (job s) \<and> processed (job t) = processed (job s) \<and>
     results (job t) = results (job s)"
  by (simp add: core_def)

lemmas core_fields [simp] =
  core_eqD[OF core_pushJobEvent] core_eqD[OF core_cleanupJob] core_eqD[OF core_onFulfilled]
  core_eqD[OF core_onRejected] core_eqD[OF core_whenAllDone] core_eqD[OF core_cancelJob]
  core_eqD[OF core_attach] core_eqD[OF core_closeConn] core_eqD[OF core_ping]

lemma slotsInv_filledD:
  "slotsInv s \<Longrightarrow> n < length (urls s) \<Longrightarrow> results (job s) ! n = Some r \<Longrightarrow>
     \<exists>c. r = workerResult (normalizeUrl (urls s ! n)) c"
  by (simp add: slotsInv_def)

lemma slotsInv_sizesD:
  "slotsInv s \<Longrightarrow> length (results (job s)) = length (urls s) \<and> total (job s) = length (urls s) \<and>
     processed (job s) = filled (results (job s))"
  by (simp add: slotsInv_def)

lemma slotsInv_fetchingD:
  "slotsInv s \<Longrightarrow> k < length (workers s) \<Longrightarrow> workers s ! k = Fetching idx u \<Longrightarrow>
     idx < length (urls s) \<and> results (job s) ! idx = None"
  by (simp add: slotsInv_def)

lemma core_workerTop:
  "urls (workerTop k s) = urls s \<and> results (job (workerTop k s)) = results (job s) \<and>
   processed (job (workerTop k s)) = processed (job s)"
  by (simp add: workerTop_def Let_def)

lemma core_workerDeliver_cancelled:
  "cancelled (job s) \<Longrightarrow> core (workerDeliver k idx r s) = core (s\<lparr>workers := (workers s)[k := Finished]\<rparr>)"
  by (simp add: workerDeliver_def)

lemma core_workerDeliver:
  "\<not> cancelled (job s) \<Longrightarrow> core (workerDeliver k idx r s) =
     (urls s, cursor s, (workers s)[k := Ready], total (job s), Suc (processed (job s)),
      arraySet (results (job s)) idx r)"
  by (simp add: workerDeliver_def onResult_def Let_def core_def pushJobEvent_def)

lemma fields_workerDeliver:
  "urls (workerDeliver k idx r s) = urls s \<and>
   processed (job (workerDeliver k idx r s)) =
     (if cancelled (job s) then processed (job s) else Suc (processed (job s))) \<and>
   results (job (workerDeliver k idx r s)) =
     (if cancelled (job s) then results (job s) else arraySet (results (job s)) idx r)"
  by (simp add: workerDeliver_def onResult_def Let_def)

lemma urls_step [simp]: "urls (step x s) = urls s"
  by (cases x) (simp_all add: core_workerTop fields_workerDeliver Let_def split: worker.splits)

lemma urls_runOps [simp]: "urls (runOps ops s) = urls s"
  unfolding runOps_def by (induction ops arbitrary: s) simp_all

lemma urls_spawn: "urls (foldl (\<lambda>t k. workerTop k t) t ks) = urls t"
  by (induction ks arbitrary: t) (simp_all add: core_workerTop)

lemma urls_startJob [simp]: "urls (startJob dc us c) = us"
  by (simp add: startJob_def runStreaming_def Let_def urls_spawn)

lemma processed_step: "processed (job s) \<le> processed (job (step x s))"
  by (cases x) (simp_all add: core_workerTop fields_workerDeliver Let_def split: worker.splits)

lemma results_step:
  assumes "slotsInv s" "n < length (urls s)" "results (job s) ! n = Some r"
  shows "results (job (step x s)) ! n = Some r"
proof (cases x)
  case (FetchDone k c)
  show ?thesis
  proof (cases "k < length (workers s)")
    case False
    then show ?thesis using assms FetchDone by simp
  next
    case True
    show ?thesis
    proof (cases "workers s ! k")
      case (Fetching idx u)
      have "idx < length (urls s)" "results (job s) ! idx = None"
        using slotsInv_fetchingD[OF assms(1) True Fetching] by simp_all
      moreover have "length (results (job s)) = length (urls s)"
        using slotsInv_sizesD[OF assms(1)] by simp
      ultimately show ?thesis
        using assms FetchDone Fetching True
        by (auto simp: fields_workerDeliver arraySet_def nth_list_update)
    qed (use assms FetchDone True in simp_all)
  qed
qed (use assms in \<open>simp_all add: core_workerTop Let_def\<close>)

lemma reached_invs: "slotsInv (reached dc us c ops) \<and> poolInv (reached dc us c ops)"
  unfolding reached_def by (intro invs_runOps slotsInv_startJob poolInv_startJob)


lemma workers_whenAllDone [simp]: "workers (whenAllDone s) = workers s"
  using core_eqD[OF core_whenAllDone] by simp

section \<open>The example job\<close>

lemma twoUrls_eq:
  "twoUrls =
     \<lparr>job = \<lparr>total = 2, processed = 0, results = [None, None],
              events = [(''start'', PStart 2)], clients = [], done = False,
              cancelled = False, cleanupTimer = False\<rparr>,
      conns = [], urls = [''a'', ''https://b''], cursor = 2,
      workers = [Fetching 0 ''http://a'', Fetching 1 ''https://b''], settled = False\<rparr>"
  by (simp add: twoUrls_def exampleUrls_def startJob_def runStreaming_def pushJobEvent_def createJob_def
      isTerminal_def workerTop_def whenAllDone_def Let_def normalizeUrl_def hasScheme_def
      toLowerChar_def upt_rec numeral_2_eq_2)

lemma startTwo_eq:
  "startJob 5 [u, ''https://b''] (Some 2) =
     \<lparr>job = \<lparr>total = 2, processed = 0, results = [None, None],
              events = [(''start'', PStart 2)], clients = [], done = False,
              cancelled = False, cleanupTimer = False\<rparr>,
      conns = [], urls = [u, ''https://b''], cursor = 2,
      workers = [Fetching 0 (normalizeUrl u), Fetching 1 ''https://b''], settled = False\<rparr>"
  by (simp add: startJob_def runStreaming_def pushJobEvent_def createJob_def
      isTerminal_def workerTop_def whenAllDone_def Let_def normalizeUrl_def[of "''https://b''"]
      hasScheme_def toLowerChar_def upt_rec numeral_2_eq_2)

lemma startThree_eq:
  "startJob 5 [''https://a'', ''https://b'', u] (Some 2) =
     \<lparr>job = \<lparr>total = 3, processed = 0, results = [None, None, None],
              events = [(''start'', PStart 3)], clients = [], done = False,
              cancelled = False, cleanupTimer = False\<rparr>,
      conns = [], urls = [''https://a'', ''https://b'', u], cursor = 2,
      workers = [Fetching 0 ''https://a'', Fetching 1 ''https://b''], settled = False\<rparr>"
  by (simp add: startJob_def runStreaming_def pushJobEvent_def createJob_def
      isTerminal_def workerTop_def whenAllDone_def Let_def normalizeUrl_def
      hasScheme_def toLowerChar_def upt_rec numeral_2_eq_2 numeral_3_eq_3)

lemma workerResult_timedOut: "workerResult u timedOut = timeoutResult u"
  by (simp add: workerResult_def timedOut_def checkUrl_def errorText_def timeoutResult_def)

lemmas run_simps = runOps_def workerDeliver_def onResult_def pushJobEvent_def isTerminal_def
  arraySet_def whenAllDone_def workerTop_def onFulfilled_def onRejected_def cleanupJob_def
  cancelJob_def attach_def closeConn_def ping_def sendSse_def Let_def workerResult_timedOut

lemma completed_eq:
  "reached 5 exampleUrls (Some 2) bothDone =
     \<lparr>job = \<lparr>total = 2, processed = 2,
              results = [Some (timeoutResult ''http://a''), Some (timeoutResult ''https://b'')],
              events = [(''start'', PStart 2),
                        (''progress'', PProgress 1 (timeoutResult ''https://b'') 1 2),
                        (''progress'', PProgress 0 (timeoutResult ''http://a'') 2 2),
                        (''done'', PDone 2 2)],
              clients = [], done = True, cancelled = False, cleanupTimer = True\<rparr>,
      conns = [], urls = [''a'', ''https://b''], cursor = 4,
      workers = [Finished, Finished], settled = True\<rparr>"
  by (simp add: reached_def twoUrls_def[symmetric] bothDone_def twoUrls_eq run_simps)

lemma oneDone_eq:
  "reached 5 exampleUrls (Some 2) oneDone =
     \<lparr>job = \<lparr>total = 2, processed = 1,
              results = [None, Some (timeoutResult ''https://b'')],
              events = [(''start'', PStart 2),
                        (''progress'', PProgress 1 (timeoutResult ''https://b'') 1 2)],
              clients = [], done = False, cancelled = False, cleanupTimer = False\<rparr>,
      conns = [], urls = [''a'', ''https://b''], cursor = 2,
      workers = [Fetching 0 ''http://a'', Ready], settled = False\<rparr>"
  by (simp add: reached_def twoUrls_def[symmetric] oneDone_def twoUrls_eq run_simps)

lemma lateObserver_eq:
  "reached 5 exampleUrls (Some 2) lateObserver =
     \<lparr>job = \<lparr>total = 2, processed = 1,
              results = [None, Some (timeoutResult ''https://b'')],
              events = [(''start'', PStart 2),
                        (''progress'', PProgress 1 (timeoutResult ''https://b'') 1 2)],
              clients = [0], done = False, cancelled = False, cleanupTimer = False\<rparr>,
      conns = [\<lparr>sent = [(''start'', PStart 2),
                           (''progress'', PProgress 1 (timeoutResult ''https://b'') 1 2)],
                 ended = False, heartbeat = True\<rparr>],
      urls = [''a'', ''https://b''], cursor = 2,
      workers = [Fetching 0 ''http://a'', Ready], settled = False\<rparr>"
  by (simp add: reached_def twoUrls_def[symmetric] lateObserver_def twoUrls_eq run_simps)

lemma bothObservers_eq:
  "reached 5 exampleUrls (Some 2) bothObservers =
     \<lparr>job = \<lparr>total = 2, processed = 2,
              results = [Some (timeoutResult ''http://a''), Some (timeoutResult ''https://b'')],
              events = [(''start'', PStart 2),
                        (''progress'', PProgress 1 (timeoutResult ''https://b'') 1 2),
                        (''progress'', PProgress 0 (timeoutResult ''http://a'') 2 2),
                        (''done'', PDone 2 2)],
              clients = [], done = True, cancelled = False, cleanupTimer = True\<rparr>,
      conns = [\<lparr>sent = [(''start'', PStart 2),
                           (''progress'', PProgress 1 (timeoutResult ''https://b'') 1 2),
                           (''progress'', PProgress 0 (timeoutResult ''http://a'') 2 2),
                           (''done'', PDone 2 2)],
                 ended = True, heartbeat = True\<rparr>,
               \<lparr>sent = [(''start'', PStart 2),
                           (''progress'', PProgress 1 (timeoutResult ''https://b'') 1 2),
                           (''progress'', PProgress 0 (timeoutResult ''http://a'') 2 2),
                           (''done'', PDone 2 2)],
                 ended = True, heartbeat = True\<rparr>],
      urls = [''a'', ''https://b''], cursor = 4,
      workers = [Finished, Finished], settled = True\<rparr>"
  by (simp add: reached_def twoUrls_def[symmetric] bothObservers_def twoUrls_eq run_simps)

section \<open>After a cancellation\<close>

lemma frozen_whenAllDone: "frozen s \<Longrightarrow> whenAllDone s = s \<or> whenAllDone s = s\<lparr>settled := True\<rparr>"
  by (simp add: whenAllDone_def onFulfilled_def frozen_def)

lemma frozen_step:
  assumes "frozen s"
  shows "frozen (step x s) \<and> logged (step x s) = logged s"
proof (cases x)
  case (Resume k)
  have "frozen (s\<lparr>workers := (workers s)[k := Finished]\<rparr>)"
    using assms by (simp add: frozen_def)
  then show ?thesis
    using assms Resume frozen_whenAllDone[of "s\<lparr>workers := (workers s)[k := Finished]\<rparr>"]
    by (auto simp: workerTop_def frozen_def logged_def)
next
  case (FetchDone k c)
  have "frozen (s\<lparr>workers := (workers s)[k := Finished]\<rparr>)"
    using assms by (simp add: frozen_def)
  then show ?thesis
    using assms FetchDone frozen_whenAllDone[of "s\<lparr>workers := (workers s)[k := Finished]\<rparr>"]
    by (auto simp: workerDeliver_def frozen_def logged_def split: worker.splits)
next
  case (Fault k m)
  then show ?thesis using assms by (simp add: Let_def onRejected_def frozen_def logged_def)
next
  case Cancel
  then show ?thesis using assms by (simp add: cancelJob_def frozen_def logged_def)
next
  case Attach
  then show ?thesis using assms by (simp add: attach_def Let_def frozen_def logged_def)
next
  case (Close c)
  then show ?thesis using assms by (simp add: closeConn_def frozen_def logged_def)
next
  case (Heartbeat c)
  then show ?thesis using assms by (simp add: ping_def frozen_def logged_def)
qed

lemma frozen_runOps: "frozen s \<Longrightarrow> frozen (runOps ops s) \<and> logged (runOps ops s) = logged s"
  unfolding runOps_def
proof (induction ops arbitrary: s)
  case Nil
  then show ?case by simp
next
  case (Cons x xs)
  then show ?case using frozen_step[of s x] by simp
qed

section \<open>Observers and the log\<close>

lemma obsInv_view: "oview t = oview s \<Longrightarrow> obsInv t = obsInv s"
  by (simp add: oview_def obsInv_def)

lemma fanOut_length [simp]: "length (fanOut e cl cs) = length cs"
  by (induction cl arbitrary: cs) simp_all

lemma fanOut_nth:
  assumes "distinct cl" "d < length cs"
  shows "fanOut e cl cs ! d = (if d \<in> set cl then deliver e (cs ! d) else cs ! d)"
  using assms
proof (induction cl arbitrary: cs)
  case Nil
  then show ?case by simp
next
  case (Cons c cl)
  let ?cs = "cs[c := deliver e (cs ! c)]"
  have step: "fanOut e (c # cl) cs = fanOut e cl ?cs"
    by (simp add: deliver_def Let_def)
  have "fanOut e cl ?cs ! d = (if d \<in> set cl then deliver e (?cs ! d) else ?cs ! d)"
    using Cons.IH[of ?cs] Cons.prems by simp
  moreover have "d \<noteq> c \<Longrightarrow> ?cs ! d = cs ! d" by simp
  moreover have "d = c \<Longrightarrow> ?cs ! d = deliver e (cs ! d)" using Cons.prems by simp
  ultimately show ?case
    unfolding step using Cons.prems by (cases "d = c") auto
qed

lemma logEvents_append [simp]: "logEvents (xs @ ys) = logEvents xs @ logEvents ys"
  by (simp add: logEvents_def)

lemma logEvents_id: "\<forall>e \<in> set es. fst e \<noteq> ''ping'' \<Longrightarrow> logEvents es = es"
  by (simp add: logEvents_def)

lemma terminals_append [simp]: "terminals (xs @ ys) = terminals xs + terminals ys"
  by (simp add: terminals_def)

lemma replay_sent:
  "\<not> ended c \<Longrightarrow> sent (foldl sendSse c es) = sent c @ es \<and> \<not> ended (foldl sendSse c es) \<and>
     heartbeat (foldl sendSse c es) = heartbeat c"
  by (induction es arbitrary: c) (simp_all add: sendSse_def)

lemma terminals_pos: "0 < terminals es \<Longrightarrow> \<exists>e \<in> set es. isTerminal (fst e)"
  unfolding terminals_def by (induction es) (auto split: if_splits)

lemma obsInvD:
  assumes "obsInv s"
  shows "distinct (clients (job s))"
    and "\<And>d. d \<in> set (clients (job s)) \<Longrightarrow>
           d < length (conns s) \<and> \<not> ended (conns s ! d) \<and>
           logEvents (sent (conns s ! d)) = events (job s)"
    and "done (job s) \<Longrightarrow> clients (job s) = []"
    and "\<And>d. d < length (conns s) \<Longrightarrow> ended (conns s ! d) \<Longrightarrow>
           done (job s) \<and> (\<exists>zs. events (job s) = logEvents (sent (conns s ! d)) @ zs) \<and>
           (\<exists>e \<in> set (sent (conns s ! d)). isTerminal (fst e))"
    and "terminals (events (job s)) = (if done (job s) then 1 else 0)"
    and "\<And>e. e \<in> set (events (job s)) \<Longrightarrow> fst e \<noteq> ''ping''"
    and "\<not> done (job s) \<Longrightarrow> length (events (job s)) = Suc (processed (job s)) \<and>
           startThenProgress (total (job s)) (events (job s))"
  using assms unfolding obsInv_def by blast+

lemma obsInvI:
  assumes "distinct (clients (job t))"
    and "\<And>d. d \<in> set (clients (job t)) \<Longrightarrow>
           d < length (conns t) \<and> \<not> ended (conns t ! d) \<and>
           logEvents (sent (conns t ! d)) = events (job t)"
    and "done (job t) \<Longrightarrow> clients (job t) = []"
    and "\<And>d. d < length (conns t) \<Longrightarrow> ended (conns t ! d) \<Longrightarrow>
           done (job t) \<and> (\<exists>zs. events (job t) = logEvents (sent (conns t ! d)) @ zs) \<and>
           (\<exists>e \<in> set (sent (conns t ! d)). isTerminal (fst e))"
    and "terminals (events (job t)) = (if done (job t) then 1 else 0)"
    and "\<And>e. e \<in> set (events (job t)) \<Longrightarrow> fst e \<noteq> ''ping''"
    and "\<not> done (job t) \<Longrightarrow> length (events (job t)) = Suc (processed (job t)) \<and>
           startThenProgress (total (job t)) (events (job t))"
  shows "obsInv t"
  unfolding obsInv_def using assms by blast

lemma oviewD:
  "oview t = (es, cl, cs, d, n, tot) \<Longrightarrow>
     events (job t) = es \<and> clients (job t) = cl \<and> conns t = cs \<and> done (job t) = d \<and>
     processed (job t) = n \<and> total (job t) = tot"
  by (simp add: oview_def)

lemma startThenProgress_snoc:
  assumes "startThenProgress tot es" "es \<noteq> []"
  shows "startThenProgress tot (es @ [(''progress'', PProgress idx r (length es) tot)])"
  unfolding startThenProgress_def
proof (intro allI impI)
  fix n
  assume "n < length (es @ [(''progress'', PProgress idx r (length es) tot)])"
  then consider "n < length es" | "n = length es" by fastforce
  then show "if n = 0 then (es @ [(''progress'', PProgress idx r (length es) tot)]) ! n = (''start'', PStart tot)
         else \<exists>i q. (es @ [(''progress'', PProgress idx r (length es) tot)]) ! n = (''progress'', PProgress i q n tot)"
  proof cases
    case 1
    then show ?thesis
      using assms(1) unfolding startThenProgress_def by (auto simp: nth_append)
  next
    case 2
    then show ?thesis using assms(2) by simp
  qed
qed

lemma obsInv_progress:
  assumes inv: "obsInv s"
    and e: "e = (''progress'', PProgress idx r (Suc (processed (job s))) (total (job s)))"
    and view: "oview t = (events (job s) @ [e], clients (job s),
                 fanOut e (clients (job s)) (conns s), done (job s),
                 Suc (processed (job s)), total (job s))"
  shows "obsInv t"
proof -
  note v = oviewD[OF view]
  note D = obsInvD[OF inv]
  have nt: "\<not> isTerminal (fst e)" "fst e \<noteq> ''ping''"
    using e by (simp_all add: isTerminal_def)
  have del: "\<And>c. \<not> ended c \<Longrightarrow> deliver e c = c\<lparr>sent := sent c @ [e]\<rparr>"
    "\<And>c. ended c \<Longrightarrow> deliver e c = c"
    using nt by (simp_all add: deliver_def sendSse_def)
  have nth: "\<And>d. d < length (conns s) \<Longrightarrow>
      conns t ! d = (if d \<in> set (clients (job s)) then deliver e (conns s ! d) else conns s ! d)"
    using v fanOut_nth[OF D(1)] by simp
  show ?thesis
  proof (rule obsInvI)
    show "distinct (clients (job t))" using v D(1) by simp
  next
    fix d assume "d \<in> set (clients (job t))"
    then have d: "d \<in> set (clients (job s))" using v by simp
    then have o: "d < length (conns s)" "\<not> ended (conns s ! d)"
      "logEvents (sent (conns s ! d)) = events (job s)"
      using D(2)[of d] by simp_all
    have "conns t ! d = (conns s ! d)\<lparr>sent := sent (conns s ! d) @ [e]\<rparr>"
      using nth[OF o(1)] d del(1)[OF o(2)] by simp
    then show "d < length (conns t) \<and> \<not> ended (conns t ! d) \<and>
        logEvents (sent (conns t ! d)) = events (job t)"
      using o v nt by (simp add: logEvents_def)
  next
    assume "done (job t)"
    then show "clients (job t) = []" using v D(3) by simp
  next
    fix d assume a: "d < length (conns t)" "ended (conns t ! d)"
    then have dl: "d < length (conns s)" using v by simp
    have same: "conns t ! d = conns s ! d"
    proof (cases "d \<in> set (clients (job s))")
      case True
      then have "\<not> ended (conns s ! d)" using D(2)[of d] by simp
      then have "\<not> ended (conns t ! d)" using nth[OF dl] True del(1) by simp
      then show ?thesis using a by simp
    next
      case False
      then show ?thesis using nth[OF dl] by simp
    qed
    then have "done (job s) \<and> (\<exists>zs. events (job s) = logEvents (sent (conns s ! d)) @ zs) \<and>
           (\<exists>e \<in> set (sent (conns s ! d)). isTerminal (fst e))"
      using D(4)[OF dl] a by simp
    then show "done (job t) \<and> (\<exists>zs. events (job t) = logEvents (sent (conns t ! d)) @ zs) \<and>
           (\<exists>e \<in> set (sent (conns t ! d)). isTerminal (fst e))"
      using same v by auto
  next
    show "terminals (events (job t)) = (if done (job t) then 1 else 0)"
      using v D(5) nt by (simp add: terminals_def)
  next
    fix x assume "x \<in> set (events (job t))"
    then show "fst x \<noteq> ''ping''" using v D(6)[of x] nt by auto
  next
    assume "\<not> done (job t)"
    then have nd: "\<not> done (job s)" using v by simp
    have len: "length (events (job s)) = Suc (processed (job s))"
      and stp: "startThenProgress (total (job s)) (events (job s))"
      using D(7)[OF nd] by simp_all
    have ne: "events (job s) \<noteq> []" using len by auto
    have "startThenProgress (total (job s))
        (events (job s) @ [(''progress'', PProgress idx r (length (events (job s))) (total (job s)))])"
      by (rule startThenProgress_snoc[OF stp ne])
    then show "length (events (job t)) = Suc (processed (job t)) \<and>
           startThenProgress (total (job t)) (events (job t))"
      using v len e by simp
  qed
qed

lemma obsInv_terminal:
  assumes inv: "obsInv s" and nd: "\<not> done (job s)" and tev: "isTerminal ev"
    and view: "oview t = (events (job s) @ [(ev, p)], [],
                 fanOut (ev, p) (clients (job s)) (conns s), True,
                 processed (job s), total (job s))"
  shows "obsInv t"
proof -
  note v = oviewD[OF view]
  note D = obsInvD[OF inv]
  have np: "ev \<noteq> ''ping''" using tev by (auto simp: isTerminal_def)
  have del: "\<And>c. \<not> ended c \<Longrightarrow> deliver (ev, p) c = c\<lparr>sent := sent c @ [(ev, p)], ended := True\<rparr>"
    using tev by (simp add: deliver_def sendSse_def)
  have nth: "\<And>d. d < length (conns s) \<Longrightarrow>
      conns t ! d = (if d \<in> set (clients (job s)) then deliver (ev, p) (conns s ! d) else conns s ! d)"
    using v fanOut_nth[OF D(1)] by simp
  show ?thesis
  proof (rule obsInvI)
    fix d assume a: "d < length (conns t)" "ended (conns t ! d)"
    then have dl: "d < length (conns s)" using v by simp
    have ne: "\<not> ended (conns s ! d)" using D(4)[OF dl] nd by blast
    then have "d \<in> set (clients (job s))" using nth[OF dl] a by (cases "d \<in> set (clients (job s))") auto
    then have "conns t ! d = (conns s ! d)\<lparr>sent := sent (conns s ! d) @ [(ev, p)], ended := True\<rparr>"
      and "logEvents (sent (conns s ! d)) = events (job s)"
      using nth[OF dl] del[OF ne] D(2)[of d] by simp_all
    then show "done (job t) \<and> (\<exists>zs. events (job t) = logEvents (sent (conns t ! d)) @ zs) \<and>
           (\<exists>e \<in> set (sent (conns t ! d)). isTerminal (fst e))"
      using v np tev by (simp add: logEvents_def)
  next
    show "terminals (events (job t)) = (if done (job t) then 1 else 0)"
      using v D(5) nd tev by (simp add: terminals_def)
  next
    fix x assume "x \<in> set (events (job t))"
    then show "fst x \<noteq> ''ping''" using v D(6)[of x] np by auto
  qed (use v in simp_all)
qed

lemma obsInv_attach:
  assumes inv: "obsInv s"
  shows "obsInv (attach s)"
proof -
  note D = obsInvD[OF inv]
  define res where "res = foldl sendSse \<lparr>sent = [], ended = False, heartbeat = True\<rparr> (events (job s))"
  have res: "sent res = events (job s)" "\<not> ended res"
    using replay_sent[of "\<lparr>sent = [], ended = False, heartbeat = True\<rparr>" "events (job s)"]
    by (simp_all add: res_def)
  have le: "logEvents (events (job s)) = events (job s)"
    using D(6) by (intro logEvents_id) blast
  show ?thesis
  proof (cases "done (job s)")
    case True
    let ?t = "s\<lparr>conns := conns s @ [res\<lparr>heartbeat := False, ended := True\<rparr>]\<rparr>"
    have t: "attach s = ?t" using True by (simp add: attach_def res_def Let_def)
    have "0 < terminals (events (job s))" using D(5) True by simp
    then have ex: "\<exists>e \<in> set (events (job s)). isTerminal (fst e)" by (rule terminals_pos)
    have "obsInv ?t"
    proof (rule obsInvI)
      fix d assume a: "d < length (conns ?t)" "ended (conns ?t ! d)"
      show "done (job ?t) \<and> (\<exists>zs. events (job ?t) = logEvents (sent (conns ?t ! d)) @ zs) \<and>
           (\<exists>e \<in> set (sent (conns ?t ! d)). isTerminal (fst e))"
      proof (cases "d < length (conns s)")
        case True
        then show ?thesis using a D(4)[of d] by (simp add: nth_append)
      next
        case False
        then have "d = length (conns s)" using a(1) by simp
        then show ?thesis using True res le ex by simp
      qed
    qed (use D True in simp_all)
    then show ?thesis using t by simp
  next
    case False
    let ?t = "s\<lparr>conns := conns s @ [res],
                job := (job s)\<lparr>clients := clients (job s) @ [length (conns s)]\<rparr>\<rparr>"
    have t: "attach s = ?t" using False by (simp add: attach_def res_def Let_def)
    have fresh: "length (conns s) \<notin> set (clients (job s))" using D(2) by blast
    have "obsInv ?t"
    proof (rule obsInvI)
      show "distinct (clients (job ?t))" using D(1) fresh by simp
    next
      fix d assume "d \<in> set (clients (job ?t))"
      then consider "d \<in> set (clients (job s))" | "d = length (conns s)" by auto
      then show "d < length (conns ?t) \<and> \<not> ended (conns ?t ! d) \<and>
           logEvents (sent (conns ?t ! d)) = events (job ?t)"
      proof cases
        case 1
        then show ?thesis using D(2)[of d] by (simp add: nth_append)
      next
        case 2
        then show ?thesis using res le by simp
      qed
    next
      fix d assume a: "d < length (conns ?t)" "ended (conns ?t ! d)"
      then have "d < length (conns s)" using res by (cases "d = length (conns s)") auto
      then show "done (job ?t) \<and> (\<exists>zs. events (job ?t) = logEvents (sent (conns ?t ! d)) @ zs) \<and>
           (\<exists>e \<in> set (sent (conns ?t ! d)). isTerminal (fst e))"
        using a D(4)[of d] by (simp add: nth_append)
    qed (use D False in simp_all)
    then show ?thesis using t by simp
  qed
qed

lemma obsInv_closeConn:
  assumes inv: "obsInv s"
  shows "obsInv (closeConn c s)"
proof (cases "c < length (conns s)")
  case False
  then show ?thesis using inv by (simp add: closeConn_def)
next
  case True
  note D = obsInvD[OF inv]
  let ?t = "s\<lparr>conns := (conns s)[c := (conns s ! c)\<lparr>heartbeat := False\<rparr>],
             job := (job s)\<lparr>clients := removeAll c (clients (job s))\<rparr>\<rparr>"
  have t: "closeConn c s = ?t" using True by (simp add: closeConn_def)
  have same: "\<And>d. d < length (conns s) \<Longrightarrow>
      sent (conns ?t ! d) = sent (conns s ! d) \<and> ended (conns ?t ! d) = ended (conns s ! d)"
    using True by (simp add: nth_list_update)
  have "obsInv ?t"
  proof (rule obsInvI)
    show "distinct (clients (job ?t))" using D(1) by (simp add: distinct_removeAll)
  next
    fix d assume "d \<in> set (clients (job ?t))"
    then have "d \<in> set (clients (job s))" by simp
    then show "d < length (conns ?t) \<and> \<not> ended (conns ?t ! d) \<and>
           logEvents (sent (conns ?t ! d)) = events (job ?t)"
      using D(2)[of d] same[of d] by simp
  next
    assume "done (job ?t)"
    then show "clients (job ?t) = []" using D(3) by simp
  next
    fix d assume a: "d < length (conns ?t)" "ended (conns ?t ! d)"
    then show "done (job ?t) \<and> (\<exists>zs. events (job ?t) = logEvents (sent (conns ?t ! d)) @ zs) \<and>
           (\<exists>e \<in> set (sent (conns ?t ! d)). isTerminal (fst e))"
      using D(4)[of d] same[of d] by simp
  qed (use D in simp_all)
  then show ?thesis using t by simp
qed

lemma obsInv_ping:
  assumes inv: "obsInv s"
  shows "obsInv (ping c s)"
proof (cases "c < length (conns s) \<and> heartbeat (conns s ! c)")
  case False
  then show ?thesis using inv by (auto simp: ping_def)
next
  case True
  note D = obsInvD[OF inv]
  let ?t = "s\<lparr>conns := (conns s)[c := sendSse (conns s ! c) (''ping'', PPing)]\<rparr>"
  have t: "ping c s = ?t" using True by (simp add: ping_def)
  have same: "\<And>d. d < length (conns s) \<Longrightarrow>
      logEvents (sent (conns ?t ! d)) = logEvents (sent (conns s ! d)) \<and>
      ended (conns ?t ! d) = ended (conns s ! d) \<and>
      set (sent (conns s ! d)) \<subseteq> set (sent (conns ?t ! d))"
    using True by (auto simp: nth_list_update sendSse_def logEvents_def)
  have "obsInv ?t"
  proof (rule obsInvI)
    fix d assume "d \<in> set (clients (job ?t))"
    then have "d \<in> set (clients (job s))" by simp
    then show "d < length (conns ?t) \<and> \<not> ended (conns ?t ! d) \<and>
           logEvents (sent (conns ?t ! d)) = events (job ?t)"
      using D(2)[of d] same[of d] by simp
  next
    fix d assume a: "d < length (conns ?t)" "ended (conns ?t ! d)"
    then have "d < length (conns s)" "ended (conns s ! d)" using same[of d] by simp_all
    then have "done (job s) \<and> (\<exists>zs. events (job s) = logEvents (sent (conns s ! d)) @ zs) \<and>
           (\<exists>e \<in> set (sent (conns s ! d)). isTerminal (fst e))"
      using D(4)[of d] by simp
    then show "done (job ?t) \<and> (\<exists>zs. events (job ?t) = logEvents (sent (conns ?t ! d)) @ zs) \<and>
           (\<exists>e \<in> set (sent (conns ?t ! d)). isTerminal (fst e))"
      using same[OF \<open>d < length (conns s)\<close>] by auto
  qed (use D in simp_all)
  then show ?thesis using t by simp
qed

lemma obsInv_finish:
  assumes "obsInv s" "\<not> done (job s)" "isTerminal ev"
  shows "obsInv (cleanupJob (pushJobEvent ev p (s\<lparr>job := (job s)\<lparr>done := True\<rparr>\<rparr>)))"
  using assms(3)
  by (intro obsInv_terminal[OF assms]) (simp add: oview_def pushJobEvent_def cleanupJob_def)

lemma obsInv_onRejected: "obsInv s \<Longrightarrow> obsInv (onRejected m s)"
  by (simp add: onRejected_def obsInv_finish isTerminal_def)

lemma obsInv_onFulfilled: "obsInv s \<Longrightarrow> obsInv (onFulfilled s)"
  by (simp add: onFulfilled_def obsInv_finish isTerminal_def)

lemma obsInv_workers: "obsInv s \<Longrightarrow> obsInv (s\<lparr>workers := ws\<rparr>)"
  using obsInv_view[of "s\<lparr>workers := ws\<rparr>" s] by (simp add: oview_def)

lemma obsInv_settled: "obsInv s \<Longrightarrow> obsInv (s\<lparr>settled := b\<rparr>)"
  using obsInv_view[of "s\<lparr>settled := b\<rparr>" s] by (simp add: oview_def)

lemma obsInv_whenAllDone: "obsInv s \<Longrightarrow> obsInv (whenAllDone s)"
  by (simp add: whenAllDone_def obsInv_onFulfilled obsInv_settled)

lemma obsInv_workerTop: "obsInv s \<Longrightarrow> obsInv (workerTop k s)"
  using obsInv_view[of "workerTop k s" s] by (simp add: oview_def workerTop_def Let_def)

lemma obsInv_cancelJob:
  assumes "obsInv s"
  shows "obsInv (cancelJob s)"
proof -
  have a: "obsInv (s\<lparr>job := (job s)\<lparr>cancelled := True\<rparr>\<rparr>)"
    using assms obsInv_view[of "s\<lparr>job := (job s)\<lparr>cancelled := True\<rparr>\<rparr>" s] by (simp add: oview_def)
  show ?thesis
    using a obsInv_finish[OF a, of "''failed''" "PFailed ''cancelled''"]
    by (simp add: cancelJob_def Let_def isTerminal_def)
qed

lemma obsInv_onResult:
  assumes "obsInv s" "\<not> cancelled (job s)"
  shows "obsInv (onResult idx r s)"
  using assms(2)
  by (intro obsInv_progress[OF assms(1) refl])
    (simp add: oview_def onResult_def Let_def pushJobEvent_def isTerminal_def)

lemma obsInv_step:
  assumes "obsInv s"
  shows "obsInv (step x s)"
proof (cases x)
  case (Resume k)
  then show ?thesis using assms by (simp add: obsInv_whenAllDone obsInv_workerTop)
next
  case (FetchDone k c)
  then show ?thesis
    using assms
    by (auto simp: workerDeliver_def obsInv_whenAllDone obsInv_workers obsInv_onResult
        split: worker.splits)
next
  case (Fault k m)
  have a: "obsInv (s\<lparr>workers := (workers s)[k := Rejected]\<rparr>)"
    by (rule obsInv_workers[OF assms])
  have b: "obsInv (s\<lparr>workers := (workers s)[k := Rejected], settled := True\<rparr>)"
    using obsInv_settled[OF a] by simp
  have "obsInv (onRejected m (s\<lparr>workers := (workers s)[k := Rejected], settled := True\<rparr>))"
    by (rule obsInv_onRejected[OF b])
  then show ?thesis
    using Fault assms a by (simp add: Let_def)
next
  case Cancel
  then show ?thesis using assms by (simp add: obsInv_cancelJob)
next
  case Attach
  then show ?thesis using assms by (simp add: obsInv_attach)
next
  case (Close c)
  then show ?thesis using assms by (simp add: obsInv_closeConn)
next
  case (Heartbeat c)
  then show ?thesis using assms by (simp add: obsInv_ping)
qed

lemma obsInv_spawn: "obsInv t \<Longrightarrow> obsInv (foldl (\<lambda>t k. workerTop k t) t ks)"
  by (induction ks arbitrary: t) (simp_all add: obsInv_workerTop)

lemma obsInv_startJob: "obsInv (startJob dc us c)"
proof -
  define s0 where "s0 = pushJobEvent ''start'' (PStart (length us))
          \<lparr>job = createJob us, conns = [], urls = us, cursor = 0, workers = [], settled = False\<rparr>"
  have "obsInv s0"
    by (rule obsInvI)
      (simp_all add: s0_def pushJobEvent_def createJob_def isTerminal_def terminals_def
        startThenProgress_def)
  then show ?thesis
    unfolding startJob_def runStreaming_def s0_def[symmetric] Let_def
    by (intro obsInv_whenAllDone obsInv_spawn obsInv_workers)
qed

lemma obsInv_reached: "obsInv (reached dc us c ops)"
proof -
  have "obsInv s \<Longrightarrow> obsInv (runOps ops s)" for s
    unfolding runOps_def by (induction ops arbitrary: s) (simp_all add: obsInv_step)
  then show ?thesis unfolding reached_def using obsInv_startJob by blast
qed

lemma terminals_count:
  "terminals (events (job (reached dc us c ops))) =
     (if done (job (reached dc us c ops)) then 1 else 0)"
  using obsInvD(5)[OF obsInv_reached] .

lemma terminal_last_whole:
  assumes "terminals es = 1" "es = xs @ zs" "\<exists>e \<in> set xs. isTerminal (fst e)"
    "isTerminal (fst (last es))"
  shows "zs = []"
proof (rule ccontr)
  assume "zs \<noteq> []"
  then have "last es \<in> set zs" using assms(2) by simp
  then have "filter (\<lambda>e. isTerminal (fst e)) zs \<noteq> []"
    using assms(4) by (auto simp: filter_empty_conv)
  then have "0 < terminals zs" by (simp add: terminals_def)
  moreover have "filter (\<lambda>e. isTerminal (fst e)) xs \<noteq> []"
    using assms(3) by (auto simp: filter_empty_conv)
  then have "0 < terminals xs" by (simp add: terminals_def)
  ultimately show False using assms(1,2) by simp
qed

lemma attach_observer:
  assumes inv: "obsInv s"
  shows "sent (conns (attach s) ! length (conns s)) = events (job s) \<and>
         (\<not> done (job s) \<longrightarrow>
            clients (job (attach s)) = clients (job s) @ [length (conns s)] \<and>
            \<not> ended (conns (attach s) ! length (conns s))) \<and>
         (done (job s) \<longrightarrow>
            clients (job (attach s)) = [] \<and> ended (conns (attach s) ! length (conns s)))"
proof -
  note D = obsInvD[OF inv]
  define res where "res = foldl sendSse \<lparr>sent = [], ended = False, heartbeat = True\<rparr> (events (job s))"
  have res: "sent res = events (job s)" "\<not> ended res"
    using replay_sent[of "\<lparr>sent = [], ended = False, heartbeat = True\<rparr>" "events (job s)"]
    by (simp_all add: res_def)
  show ?thesis
  proof (cases "done (job s)")
    case True
    then have "attach s = s\<lparr>conns := conns s @ [res\<lparr>heartbeat := False, ended := True\<rparr>]\<rparr>"
      by (simp add: attach_def Let_def res_def)
    then show ?thesis using True res D(3) by simp
  next
    case False
    then have "attach s = s\<lparr>conns := conns s @ [res],
               job := (job s)\<lparr>clients := clients (job s) @ [length (conns s)]\<rparr>\<rparr>"
      by (simp add: attach_def Let_def res_def)
    then show ?thesis using False res by simp
  qed
qed

lemma ended_observer:
  assumes inv: "obsInv s" and h: "d < length (conns s)" "ended (conns s ! d)"
  shows "(\<exists>zs. events (job s) = logEvents (sent (conns s ! d)) @ zs) \<and>
      (isTerminal (fst (last (events (job s)))) \<longrightarrow>
         logEvents (sent (conns s ! d)) = events (job s))"
proof -
  note D = obsInvD[OF inv]
  obtain zs where zs: "events (job s) = logEvents (sent (conns s ! d)) @ zs"
    using D(4)[OF h] by blast
  have dn: "done (job s)" using D(4)[OF h] by blast
  obtain x where x: "x \<in> set (sent (conns s ! d))" "isTerminal (fst x)"
    using D(4)[OF h] by blast
  then have "fst x \<noteq> ''ping''" by (auto simp: isTerminal_def)
  then have "x \<in> set (logEvents (sent (conns s ! d)))"
    using x(1) by (simp add: logEvents_def)
  then have ex: "\<exists>e \<in> set (logEvents (sent (conns s ! d))). isTerminal (fst e)"
    using x(2) by blast
  have one: "terminals (events (job s)) = 1" using D(5) dn by simp
  have "logEvents (sent (conns s ! d)) = events (job s)"
    if t: "isTerminal (fst (last (events (job s))))"
  proof -
    have "zs = []" by (rule terminal_last_whole[OF one zs ex t])
    then show ?thesis using zs by simp
  qed
  then have "isTerminal (fst (last (events (job s)))) \<longrightarrow>
         logEvents (sent (conns s ! d)) = events (job s)"
    by blast
  moreover have "\<exists>zs. events (job s) = logEvents (sent (conns s ! d)) @ zs"
    using zs by (rule exI)
  ultimately show ?thesis by (rule conjI[rotated])
qed

section \<open>The crawl loop\<close>

lemma batchUrls_append [simp]: "batchUrls (xs @ ys) = batchUrls xs @ batchUrls ys"
  by (simp add: batchUrls_def)

lemma batchUrls_simps [simp]:
  "batchUrls [] = []" "batchUrls [Batch us t] = us" "batchUrls [CrawlDone t] = []"
  "batchUrls [CrawlFailed m] = []"
  by (simp_all add: batchUrls_def)

lemma newUrls_distinct: "distinct seen \<Longrightarrow> distinct (seen @ newUrls seen locs)"
proof (induction locs arbitrary: seen)
  case Nil
  then show ?case by simp
next
  case (Cons loc locs)
  show ?case
  proof (cases "loc = [] \<or> loc \<in> set seen")
    case True
    then show ?thesis using Cons by auto
  next
    case False
    then have "distinct (seen @ [loc])" using Cons.prems by simp
    then have "distinct ((seen @ [loc]) @ newUrls (seen @ [loc]) locs)" by (rule Cons.IH)
    then show ?thesis using False by simp
  qed
qed

lemma concat_batches: "concat (batches xs) = xs"
proof (induction xs rule: batches.induct)
  case (1 xs)
  show ?case
  proof (cases "xs = []")
    case True
    then show ?thesis by (simp add: batches.simps)
  next
    case False
    then have "concat (batches xs) = take 200 xs @ concat (batches (drop 200 xs))"
      by (subst batches.simps) simp
    then show ?thesis using 1[OF False] by simp
  qed
qed

lemma foldl_sendBatch:
  "visitedSitemaps (foldl sendBatch st bs) = visitedSitemaps st \<and>
   seenUrls (foldl sendBatch st bs) = seenUrls st \<and>
   closed (foldl sendBatch st bs) = closed st \<and>
   resEnded (foldl sendBatch st bs) = resEnded st \<and>
   fetches (foldl sendBatch st bs) = fetches st \<and>
   found (foldl sendBatch st bs) = found st + length (concat bs) \<and>
   batchUrls (out (foldl sendBatch st bs)) = batchUrls (out st) @ concat bs \<and>
   ((\<forall>e \<in> set (out st). isBatch e) \<longrightarrow> (\<forall>e \<in> set (out (foldl sendBatch st bs)). isBatch e))"
proof (induction bs arbitrary: st)
  case Nil
  then show ?case by simp
next
  case (Cons b bs)
  show ?case
    using Cons[of "sendBatch st b"] by (auto simp: sendBatch_def isBatch_def)
qed

lemma crawlInv_queue [simp]: "crawlInv net (st\<lparr>queue := q\<rparr>) = crawlInv net st"
  by (simp add: crawlInv_def)

lemma crawlInv_enqueue [simp]: "crawlInv net (enqueue maxDepth depth locs st) = crawlInv net st"
  by (simp add: enqueue_def)

lemma crawlInv_emit:
  assumes "crawlInv net st"
  shows "crawlInv net (emit locs st)"
proof -
  let ?new = "newUrls (seenUrls st) locs"
  let ?st1 = "st\<lparr>seenUrls := seenUrls st @ ?new\<rparr>"
  note F = foldl_sendBatch[of ?st1 "batches ?new"]
  have d: "distinct (seenUrls st @ ?new)"
    using assms newUrls_distinct by (simp add: crawlInv_def)
  have e: "emit locs st = foldl sendBatch ?st1 (batches ?new)"
    by (simp add: emit_def Let_def)
  show ?thesis
    unfolding e crawlInv_def
    using F assms d by (simp add: concat_batches crawlInv_def)
qed

lemma batches_no_done:
  assumes "\<forall>e \<in> set es. isBatch e"
  shows "CrawlDone t \<notin> set es"
proof
  assume "CrawlDone t \<in> set es"
  then have "isBatch (CrawlDone t)" using assms by blast
  then show False by (simp add: isBatch_def)
qed

lemma crawlInv_no_done: "crawlInv net st \<Longrightarrow> CrawlDone t \<notin> set (out st)"
  using batches_no_done[of "out st" t] by (simp add: crawlInv_def)

lemma crawlPost_afterLoop:
  assumes "crawlInv net st"
  shows "crawlPost net (afterLoop st)"
proof -
  have nf: "\<And>n. n < length (fetches st) \<Longrightarrow> \<not> fetchFails (net (fetches st ! n))"
    using assms by (simp add: crawlInv_def)
  have nd: "\<And>t. CrawlDone t \<notin> set (out st)"
    using assms by (rule crawlInv_no_done)
  show ?thesis
    unfolding crawlPost_def afterLoop_def
    using assms nf nd by (auto simp: crawlInv_def)
qed

lemma fetchDoc_Inr:
  assumes "crawlInv net st" "u \<notin> set (visitedSitemaps st)"
    "fetchDoc net closes u (st\<lparr>queue := rest, visitedSitemaps := visitedSitemaps st @ [u]\<rparr>)
       = Inr (st', locs)"
  shows "crawlInv net st'"
proof -
  let ?st1 = "st\<lparr>queue := rest, visitedSitemaps := visitedSitemaps st @ [u],
                 fetches := fetches st @ [u],
                 closed := (closed st \<or> closes (length (fetches st)))\<rparr>"
  have st': "st' = ?st1" and ok: "\<not> fetchFails (net u)"
    using assms(3)
    by (auto simp: fetchDoc_def Let_def fetchFails_def
        split: sitemap_fetch.splits xml_body.splits if_splits)
  show ?thesis
    unfolding st' using assms(1,2) ok by (simp add: crawlInv_def)
qed

lemma crawlPost_failWith:
  assumes "crawlInv net st" "u \<notin> set (visitedSitemaps st)" "msg = failMessage (net u)"
  shows "crawlPost net (failWith msg
           (st\<lparr>queue := rest, visitedSitemaps := visitedSitemaps st @ [u],
               fetches := fetches st @ [u], closed := b\<rparr>))" (is "crawlPost net ?r")
proof -
  have old: "\<And>n. n < length (fetches st) \<Longrightarrow> \<not> fetchFails (net (fetches st ! n))"
    using assms(1) by (simp add: crawlInv_def)
  have f: "fetches ?r = fetches st @ [u]" "out ?r = out st @ [CrawlFailed msg]" "resEnded ?r"
    by (simp_all add: failWith_def)
  have nd: "\<And>t. CrawlDone t \<notin> set (out ?r)"
    using crawlInv_no_done[OF assms(1)] by (simp add: f)
  have last: "Suc n = length (fetches ?r) \<and> resEnded ?r \<and>
         (\<exists>bs. out ?r = bs @ [CrawlFailed (failMessage (net (fetches ?r ! n)))] \<and>
               (\<forall>e \<in> set bs. isBatch e))"
    if "n < length (fetches ?r)" "fetchFails (net (fetches ?r ! n))" for n
  proof -
    have n: "n = length (fetches st)"
      using that old[of n] by (cases "n < length (fetches st)") (auto simp: f nth_append)
    then have u: "fetches ?r ! n = u" by (simp add: f(1))
    have "out ?r = out st @ [CrawlFailed (failMessage (net (fetches ?r ! n)))]"
      unfolding u assms(3)[symmetric] by (rule f(2))
    moreover have "\<forall>e \<in> set (out st). isBatch e"
      using assms(1) by (simp add: crawlInv_def)
    moreover have "Suc n = length (fetches ?r)" by (simp add: f(1) n)
    ultimately show ?thesis using f(3) by blast
  qed
  have "distinct (fetches ?r)"
    unfolding f(1) using assms(1,2) by (simp add: crawlInv_def)
  moreover have "distinct (batchUrls (out ?r))"
    unfolding f(2) using assms(1) by (simp add: crawlInv_def)
  ultimately show ?thesis
    unfolding crawlPost_def using nd last by blast
qed

lemma crawlPost_quiet:
  assumes "crawlInv net st" "u \<notin> set (visitedSitemaps st)" "\<not> fetchFails (net u)"
    "r = st\<lparr>queue := rest, visitedSitemaps := visitedSitemaps st @ [u],
               fetches := fetches st @ [u], closed := b\<rparr> \<or>
     r = failWith msg (st\<lparr>queue := rest, visitedSitemaps := visitedSitemaps st @ [u],
               fetches := fetches st @ [u], closed := b\<rparr>)"
  shows "crawlPost net r"
proof -
  have f: "fetches r = fetches st @ [u]" "batchUrls (out r) = batchUrls (out st)"
    using assms(4) by (auto simp: failWith_def)
  have nd: "\<And>t. CrawlDone t \<notin> set (out r)"
    using crawlInv_no_done[OF assms(1)] assms(4) by (auto simp: failWith_def)
  have nf: "\<And>n. n < length (fetches r) \<Longrightarrow> \<not> fetchFails (net (fetches r ! n))"
    using assms(1,3) by (auto simp: f crawlInv_def nth_append less_Suc_eq)
  have "distinct (fetches r)"
    unfolding f(1) using assms(1,2) by (simp add: crawlInv_def)
  moreover have "distinct (batchUrls (out r))"
    unfolding f(2) using assms(1) by (simp add: crawlInv_def)
  ultimately show ?thesis
    unfolding crawlPost_def using nd nf by blast
qed

lemma fetchDoc_Inl:
  assumes "crawlInv net st" "u \<notin> set (visitedSitemaps st)"
    "fetchDoc net closes u (st\<lparr>queue := rest, visitedSitemaps := visitedSitemaps st @ [u]\<rparr>)
       = Inl st'"
  shows "crawlPost net st'"
proof (cases "fetchFails (net u)")
  case True
  then have "st' = failWith (failMessage (net u))
           (st\<lparr>queue := rest, visitedSitemaps := visitedSitemaps st @ [u],
               fetches := fetches st @ [u],
               closed := (closed st \<or> closes (length (fetches st)))\<rparr>)"
    using assms(3)
    by (auto simp: fetchDoc_def Let_def fetchFails_def failMessage_def
        split: sitemap_fetch.splits xml_body.splits if_splits)
  then show ?thesis
    using crawlPost_failWith[OF assms(1,2) refl] by simp
next
  case False
  then obtain msg where
    "st' = st\<lparr>queue := rest, visitedSitemaps := visitedSitemaps st @ [u],
               fetches := fetches st @ [u],
               closed := (closed st \<or> closes (length (fetches st)))\<rparr> \<or>
     st' = failWith msg (st\<lparr>queue := rest, visitedSitemaps := visitedSitemaps st @ [u],
               fetches := fetches st @ [u],
               closed := (closed st \<or> closes (length (fetches st)))\<rparr>)"
    using assms(3)
    by (auto simp: fetchDoc_def Let_def fetchFails_def
        split: sitemap_fetch.splits xml_body.splits if_splits)
  then show ?thesis
    using crawlPost_quiet[OF assms(1,2) False] by blast
qed

lemma crawlPost_crawlLoop:
  "crawlInv net st \<Longrightarrow> crawlPost net (crawlLoop net closes maxDepth st)"
proof (induction net closes maxDepth st rule: crawlLoop.induct)
  case (1 net closes maxDepth st)
  show ?case
  proof (cases "queue st")
    case Nil
    then show ?thesis
      using "1.prems" by (subst crawlLoop.simps) (simp add: crawlPost_afterLoop)
  next
    case (Cons x rest)
    obtain u depth where x: "x = (u, depth)" by (cases x)
    show ?thesis
    proof (cases "closed st")
      case True
      then show ?thesis
        using "1.prems" Cons x by (subst crawlLoop.simps) (simp add: crawlPost_afterLoop)
    next
      case opn: False
      show ?thesis
      proof (cases "u \<in> set (visitedSitemaps st)")
        case True
        have "crawlPost net (crawlLoop net closes maxDepth (st\<lparr>queue := rest\<rparr>))"
          using "1.IH"(1)[OF Cons x[symmetric] opn True] "1.prems" by simp
        then show ?thesis
          using Cons x opn True by (subst crawlLoop.simps) simp
      next
        case False
        let ?f = "fetchDoc net closes u
            (st\<lparr>queue := rest, visitedSitemaps := visitedSitemaps st @ [u]\<rparr>)"
        show ?thesis
        proof (cases ?f)
          case (Inl st')
          then show ?thesis
            using Cons x opn False fetchDoc_Inl[OF "1.prems" False Inl]
            by (subst crawlLoop.simps) simp
        next
          case (Inr b)
          obtain st' urlLocs sitemapLocs where b: "b = (st', urlLocs, sitemapLocs)"
            by (cases b) auto
          have inv: "crawlInv net st'"
            using fetchDoc_Inr[OF "1.prems" False] Inr b by simp
          have "crawlInv net (emit urlLocs (enqueue maxDepth depth sitemapLocs st'))"
            using inv by (intro crawlInv_emit) simp
          then have "crawlPost net (crawlLoop net closes maxDepth
              (emit urlLocs (enqueue maxDepth depth sitemapLocs st')))"
            using "1.IH"(2)[OF Cons x[symmetric] opn False Inr b[symmetric] refl] by simp
          then show ?thesis
            using Cons x opn False Inr b by (subst crawlLoop.simps) simp
        qed
      qed
    qed
  qed
qed

lemma crawlPost_sitemapStream: "crawlPost net (sitemapStream parseUrl net closes maxDepth q)"
proof -
  let ?st0 = "\<lparr>visitedSitemaps = [], seenUrls = [], queue = [], found = 0, closed = False,
                 out = [], resEnded = False, fetches = []\<rparr>"
  have early: "crawlPost net (failWith msg ?st0)" for msg
    by (simp add: crawlPost_def failWith_def)
  have "crawlInv net (?st0\<lparr>queue := [(href, 0)]\<rparr>)" for href
    by (simp add: crawlInv_def)
  then have run: "crawlPost net (crawlLoop net closes maxDepth (?st0\<lparr>queue := [(href, 0)]\<rparr>))" for href
    by (rule crawlPost_crawlLoop)
  show ?thesis
    unfolding sitemapStream_def Let_def
    using early run by (auto split: option.splits)
qed

lemma failedCount_batches: "\<forall>e \<in> set bs. isBatch e \<Longrightarrow> failedCount bs = 0"
  by (induction bs) (auto simp: failedCount_def isBatch_def split: crawl_event.splits)

lemma closed_emit [simp]: "closed (emit locs st) = closed st"
  using foldl_sendBatch[of "st\<lparr>seenUrls := seenUrls st @ newUrls (seenUrls st) locs\<rparr>"]
  by (simp add: emit_def Let_def)

lemma closed_enqueue [simp]: "closed (enqueue maxDepth depth locs st) = closed st"
  by (simp add: enqueue_def)

lemma fetchDoc_answers:
  assumes "answers (net u)" "\<not> closed st" "\<not> closes (length (fetches st))"
  shows "\<exists>st' locs. fetchDoc net closes u st = Inr (st', locs) \<and> \<not> closed st' \<and>
           fetches st' = fetches st @ [u]"
  using assms
  by (auto simp: fetchDoc_def Let_def answers_def split: sitemap_fetch.splits xml_body.splits)

lemma fetches_step [simp]:
  "fetches (emit locs st) = fetches st" "fetches (enqueue maxDepth depth ms st) = fetches st"
  using foldl_sendBatch[of "st\<lparr>seenUrls := seenUrls st @ newUrls (seenUrls st) locs\<rparr>"]
  by (simp_all add: emit_def Let_def enqueue_def)

lemma crawlLoop_done:
  "\<forall>u. answers (net u) \<Longrightarrow> \<forall>n. \<not> closes n \<Longrightarrow> \<not> closed st \<Longrightarrow>
     \<exists>bs t. out (crawlLoop net closes maxDepth st) = bs @ [CrawlDone t]"
proof (induction net closes maxDepth st rule: crawlLoop.induct)
  case (1 net closes maxDepth st)
  show ?case
  proof (cases "queue st")
    case Nil
    then show ?thesis
      using "1.prems" by (subst crawlLoop.simps) (simp add: afterLoop_def)
  next
    case (Cons x rest)
    obtain u depth where x: "x = (u, depth)" by (cases x)
    have opn: "\<not> closed st" using "1.prems" by simp
    show ?thesis
    proof (cases "u \<in> set (visitedSitemaps st)")
      case True
      have "\<exists>bs t. out (crawlLoop net closes maxDepth (st\<lparr>queue := rest\<rparr>)) = bs @ [CrawlDone t]"
        using "1.IH"(1)[OF Cons x[symmetric] opn True "1.prems"(1,2)] opn by simp
      then show ?thesis
        using Cons x opn True by (subst crawlLoop.simps) simp
    next
      case False
      let ?st = "st\<lparr>queue := rest, visitedSitemaps := visitedSitemaps st @ [u]\<rparr>"
      obtain st' locs where f: "fetchDoc net closes u ?st = Inr (st', locs)" "\<not> closed st'"
        using fetchDoc_answers[of net u ?st closes] "1.prems" opn by auto
      obtain urlLocs sitemapLocs where l: "locs = (urlLocs, sitemapLocs)" by (cases locs)
      have "\<exists>bs t. out (crawlLoop net closes maxDepth
              (emit urlLocs (enqueue maxDepth depth sitemapLocs st'))) = bs @ [CrawlDone t]"
        using "1.IH"(2)[OF Cons x[symmetric] opn False f(1) refl l[symmetric] "1.prems"(1,2)] f(2) by simp
      then show ?thesis
        using Cons x opn False f l by (subst crawlLoop.simps) simp
    qed
  qed
qed

lemma sitemapStream_done:
  assumes "validRoot parseUrl q" "\<forall>u. answers (net u)" "\<forall>n. \<not> closes n"
  shows "\<exists>bs t. out (sitemapStream parseUrl net closes maxDepth q) = bs @ [CrawlDone t]"
proof -
  let ?st0 = "\<lparr>visitedSitemaps = [], seenUrls = [], queue = [], found = 0, closed = False,
                 out = [], resEnded = False, fetches = []\<rparr>"
  have "\<exists>bs t. out (crawlLoop net closes maxDepth (?st0\<lparr>queue := [(href, 0)]\<rparr>)) = bs @ [CrawlDone t]"
    for href
    by (rule crawlLoop_done[OF assms(2,3)]) simp
  then show ?thesis
    using assms(1) unfolding sitemapStream_def validRoot_def Let_def
    by (auto split: option.splits)
qed

lemma example_crawl_eq:
  "sitemapStream exampleParseUrl exampleNet (\<lambda>n. False) 1 (Some '' http://r '') =
     \<lparr>visitedSitemaps = [''http://r/'', ''http://a'', ''http://b''],
      seenUrls = [''p1'', ''p2'', ''p3''], queue = [], found = 3, closed = False,
      out = [Batch [''p1'', ''p2''] 2, Batch [''p3''] 3, CrawlDone 3],
      resEnded = True, fetches = [''http://r/'', ''http://a'', ''http://b'']\<rparr>"
  by (simp add: sitemapStream_def trim_def isSpace_def exampleParseUrl_def crawlLoop.simps
      fetchDoc_def exampleNet_def Let_def enqueue_def parseSitemapXml_def emit_def batches.simps
      sendBatch_def afterLoop_def)

lemma example_crawl_fails_eq:
  "sitemapStream exampleParseUrl exampleNet (\<lambda>n. False) 5 (Some '' http://r '') =
     \<lparr>visitedSitemaps = [''http://r/'', ''http://a'', ''http://b'', ''http://c''],
      seenUrls = [''p1'', ''p2'', ''p3''], queue = [], found = 3, closed = False,
      out = [Batch [''p1'', ''p2''] 2, Batch [''p3''] 3, CrawlFailed ''sitemap fetch failed: 404''],
      resEnded = True, fetches = [''http://r/'', ''http://a'', ''http://b'', ''http://c'']\<rparr>"
  by (simp add: sitemapStream_def trim_def isSpace_def exampleParseUrl_def crawlLoop.simps
      fetchDoc_def exampleNet_def Let_def enqueue_def parseSitemapXml_def emit_def batches.simps
      sendBatch_def afterLoop_def failWith_def decimal.simps)

lemma quiet_crawl_eq:
  "sitemapStream exampleParseUrl quietNet (\<lambda>n. False) 5 (Some ''http://r'') =
     \<lparr>visitedSitemaps = [''http://r/''], seenUrls = [''p''], queue = [], found = 1,
      closed = False, out = [Batch [''p''] 1, CrawlDone 1], resEnded = True,
      fetches = [''http://r/'']\<rparr>"
  by (simp add: sitemapStream_def trim_def isSpace_def exampleParseUrl_def crawlLoop.simps
      fetchDoc_def quietNet_def Let_def enqueue_def parseSitemapXml_def emit_def batches.simps
      sendBatch_def afterLoop_def)

section \<open>The terminal event of a run without faults\<close>

lemma lastIsTerminal_finish:
  assumes "isTerminal ev" "cancelled (job s) \<or> (\<forall>w \<in> set (workers s). w = Finished)"
  shows "lastIsTerminal (cleanupJob (pushJobEvent ev p (s\<lparr>job := (job s)\<lparr>done := True\<rparr>\<rparr>)))"
  using assms by (simp add: lastIsTerminal_def pushJobEvent_def cleanupJob_def)

lemma lastIsTerminal_settled: "lastIsTerminal (s\<lparr>settled := b\<rparr>) = lastIsTerminal s"
  by (simp add: lastIsTerminal_def)

lemma lastIsTerminal_whenAllDone:
  assumes "lastIsTerminal s"
  shows "lastIsTerminal (whenAllDone s)"
proof (cases "\<not> settled s \<and> (\<forall>w \<in> set (workers s). w = Finished) \<and> \<not> done (job s)")
  case True
  then have "whenAllDone s =
      cleanupJob (pushJobEvent (if cancelled (job s) then ''failed'' else ''done'')
        (if cancelled (job s) then PFailed ''cancelled''
         else PDone (processed (job s)) (total (job s)))
        ((s\<lparr>settled := True\<rparr>)\<lparr>job := (job (s\<lparr>settled := True\<rparr>))\<lparr>done := True\<rparr>\<rparr>))"
    by (simp add: whenAllDone_def onFulfilled_def)
  moreover have "lastIsTerminal (cleanupJob (pushJobEvent (if cancelled (job s) then ''failed'' else ''done'')
        (if cancelled (job s) then PFailed ''cancelled''
         else PDone (processed (job s)) (total (job s)))
        ((s\<lparr>settled := True\<rparr>)\<lparr>job := (job (s\<lparr>settled := True\<rparr>))\<lparr>done := True\<rparr>\<rparr>)))"
    using True by (intro lastIsTerminal_finish) (simp_all add: isTerminal_def)
  ultimately show ?thesis by simp
next
  case False
  then have "whenAllDone s = s \<or> whenAllDone s = s\<lparr>settled := True\<rparr>"
    by (auto simp: whenAllDone_def onFulfilled_def)
  then show ?thesis using assms lastIsTerminal_settled by auto
qed

lemma lastIsTerminal_exit:
  assumes "lastIsTerminal s" "cancelled (job s) \<or> \<not> done (job s)"
  shows "lastIsTerminal (s\<lparr>workers := ws\<rparr>)"
  using assms by (auto simp: lastIsTerminal_def)

lemma lastIsTerminal_workerTop:
  assumes "lastIsTerminal s" "k < length (workers s)" "workers s ! k = Ready"
  shows "lastIsTerminal (workerTop k s)"
proof -
  have "cancelled (job s) \<or> \<not> done (job s)"
    using assms unfolding lastIsTerminal_def by (metis nth_mem worker.distinct(3))
  then show ?thesis
    using assms(1) by (auto simp: workerTop_def Let_def lastIsTerminal_def)
qed

lemma lastIsTerminal_step:
  assumes "lastIsTerminal s" "\<not> isFault x"
  shows "lastIsTerminal (step x s)"
proof (cases x)
  case (Resume k)
  then show ?thesis
    using assms lastIsTerminal_whenAllDone[OF lastIsTerminal_workerTop[OF assms(1)], of k]
    by auto
next
  case (FetchDone k c)
  show ?thesis
  proof (cases "k < length (workers s)")
    case False
    then show ?thesis using assms FetchDone by simp
  next
    case True
    show ?thesis
    proof (cases "workers s ! k")
      case (Fetching idx u)
      have nf: "cancelled (job s) \<or> \<not> done (job s)"
        using assms(1) True Fetching unfolding lastIsTerminal_def
        by (metis nth_mem worker.distinct(7))
      show ?thesis
      proof (cases "cancelled (job s)")
        case c: True
        have "lastIsTerminal (whenAllDone (s\<lparr>workers := (workers s)[k := Finished]\<rparr>))"
          using assms(1) nf by (intro lastIsTerminal_whenAllDone lastIsTerminal_exit)
        then show ?thesis using FetchDone Fetching True c by (simp add: workerDeliver_def)
      next
        case False
        then have "\<not> done (job s)" using nf by simp
        then show ?thesis
          using FetchDone Fetching True False
          by (simp add: workerDeliver_def onResult_def Let_def pushJobEvent_def lastIsTerminal_def
              isTerminal_def)
      qed
    qed (use assms FetchDone True in simp_all)
  qed
next
  case (Fault k m)
  then show ?thesis using assms(2) by (simp add: isFault_def)
next
  case Cancel
  show ?thesis
  proof (cases "done (job s)")
    case True
    then show ?thesis
      using assms(1) Cancel by (simp add: cancelJob_def Let_def lastIsTerminal_def)
  next
    case False
    have "lastIsTerminal (cleanupJob (pushJobEvent ''failed'' (PFailed ''cancelled'')
        ((s\<lparr>job := (job s)\<lparr>cancelled := True\<rparr>\<rparr>)
          \<lparr>job := (job (s\<lparr>job := (job s)\<lparr>cancelled := True\<rparr>\<rparr>))\<lparr>done := True\<rparr>\<rparr>)))"
      by (intro lastIsTerminal_finish) (simp_all add: isTerminal_def)
    then show ?thesis using Cancel False by (simp add: cancelJob_def Let_def)
  qed
next
  case Attach
  then show ?thesis using assms(1) by (auto simp: attach_def Let_def lastIsTerminal_def)
next
  case (Close c)
  then show ?thesis using assms(1) by (simp add: closeConn_def lastIsTerminal_def)
next
  case (Heartbeat c)
  then show ?thesis using assms(1) by (simp add: ping_def lastIsTerminal_def)
qed

lemma job_spawn: "job (foldl (\<lambda>t k. workerTop k t) t ks) = job t"
  by (induction ks arbitrary: t) (simp_all add: workerTop_def Let_def)

lemma lastIsTerminal_startJob: "lastIsTerminal (startJob dc us c)"
  unfolding startJob_def runStreaming_def Let_def
  by (intro lastIsTerminal_whenAllDone)
    (simp add: lastIsTerminal_def job_spawn pushJobEvent_def createJob_def)

lemma terminal_stays_last:
  assumes "\<forall>x \<in> set ops. \<not> isFault x" "done (job (reached dc us c ops))"
  shows "isTerminal (fst (last (events (job (reached dc us c ops)))))"
proof -
  have "lastIsTerminal s \<Longrightarrow> \<forall>x \<in> set ops. \<not> isFault x \<Longrightarrow> lastIsTerminal (runOps ops s)" for s
    unfolding runOps_def
    by (induction ops arbitrary: s) (simp_all add: lastIsTerminal_step)
  then have "lastIsTerminal (reached dc us c ops)"
    unfolding reached_def using lastIsTerminal_startJob assms(1) by blast
  then show ?thesis using assms(2) by (simp add: lastIsTerminal_def)
qed

section \<open>The cancel endpoint\<close>

text \<open>
  C1, as the code has it: the cancel endpoint answers \<open>ok: false\<close> exactly when
  the job id is unknown, and then changes nothing. For every known job it
  answers \<open>ok: true\<close>: a job that is already terminal only gets its
  cancellation flag set (no event, no error), a job that is not yet terminal is
  made terminal with the event \<open>failed {error: "cancelled"}\<close>.
\<close>

theorem cancel_response:
  "(jobs jobId = None \<longrightarrow> checkCancel jobs jobId = (jobs, False)) \<and>
   (\<forall>s. jobs jobId = Some s \<longrightarrow>
      snd (checkCancel jobs jobId) = True \<and>
      (done (job s) \<longrightarrow>
         fst (checkCancel jobs jobId) = jobs(jobId \<mapsto> s\<lparr>job := (job s)\<lparr>cancelled := True\<rparr>\<rparr>)) \<and>
      (\<not> done (job s) \<longrightarrow>
         (\<exists>t. fst (checkCancel jobs jobId) jobId = Some t \<and> done (job t) \<and> cancelled (job t) \<and>
              events (job t) = events (job s) @ [(''failed'', PFailed ''cancelled'')])))"
  by (auto simp: checkCancel_def cancelJob_def Let_def pushJobEvent_def cleanupJob_def)

text \<open>
  The claim as the specification words it fails: cancelling a job that is
  already terminal answers \<open>ok: true\<close>.
\<close>

theorem cancel_terminal_counterexample:
  "done (job (cancelJob twoUrls)) \<and>
   snd (checkCancel [''j'' \<mapsto> cancelJob twoUrls] ''j'') = True"
  by (simp add: twoUrls_eq checkCancel_def cancelJob_def Let_def pushJobEvent_def cleanupJob_def)

theorem cancel_response_witness:
  "[''j'' \<mapsto> cancelJob twoUrls] ''k'' = None \<and>
   checkCancel [''j'' \<mapsto> cancelJob twoUrls] ''k'' = ([''j'' \<mapsto> cancelJob twoUrls], False) \<and>
   [''j'' \<mapsto> twoUrls] ''j'' = Some twoUrls \<and> \<not> done (job twoUrls) \<and>
   snd (checkCancel [''j'' \<mapsto> twoUrls] ''j'') = True \<and>
   [''j'' \<mapsto> cancelJob twoUrls] ''j'' = Some (cancelJob twoUrls) \<and>
   done (job (cancelJob twoUrls)) \<and>
   fst (checkCancel [''j'' \<mapsto> cancelJob twoUrls] ''j'') =
     [''j'' \<mapsto> (cancelJob twoUrls)\<lparr>job := (job (cancelJob twoUrls))\<lparr>cancelled := True\<rparr>\<rparr>]"
  using cancel_response[of "[''j'' \<mapsto> cancelJob twoUrls]" "''k''"]
    cancel_response[of "[''j'' \<mapsto> twoUrls]" "''j''"]
    cancel_response[of "[''j'' \<mapsto> cancelJob twoUrls]" "''j''"]
  by (simp add: twoUrls_eq cancelJob_def Let_def pushJobEvent_def cleanupJob_def)

section \<open>Events after a terminal event\<close>

text \<open>
  C2 does not hold of the code. The \<open>.catch\<close> callback marks the job terminal
  but leaves \<open>cancelled\<close> unset, and \<open>Promise.all\<close> does not stop the other
  workers: when worker 0 of the example job is rejected while the fetch of
  worker 1 is in flight, the result of worker 1 is stored and a \<open>progress\<close>
  event is appended to the log after the \<open>failed\<close> event. The log never holds
  more than one terminal event (\<open>terminals_count\<close>), and without a fault the
  terminal event stays its last event (\<open>terminal_stays_last\<close>).
\<close>

theorem progress_after_fault:
  "events (job (reached 5 exampleUrls (Some 2) faultThenResult)) =
     [(''start'', PStart 2), (''failed'', PFailed ''boom''),
      (''progress'', PProgress 1 (timeoutResult ''https://b'') 1 2)] \<and>
   results (job (reached 5 exampleUrls (Some 2) faultThenResult)) =
     [None, Some (timeoutResult ''https://b'')] \<and>
   done (job (reached 5 exampleUrls (Some 2) faultThenResult))"
  by (simp add: reached_def twoUrls_def[symmetric] faultThenResult_def twoUrls_eq run_simps)

section \<open>Positional storage of results\<close>

text \<open>
  C3: in every state a job can reach, whatever the concurrency and the order in
  which the workers complete, the results array has one slot per input URL, and
  a non-empty slot \<open>n\<close> holds the CheckResult that the worker made for input URL
  \<open>n\<close>: its \<open>url\<close> field is the normalized form of \<open>urls[n]\<close>. No later step
  changes a non-empty slot, so each slot is written at most once.
\<close>

theorem slot_reflects_url:
  "length (results (job (reached dc us c ops))) = length us \<and>
   (\<forall>n r. n < length us \<longrightarrow> results (job (reached dc us c ops)) ! n = Some r \<longrightarrow>
      url r = normalizeUrl (us ! n) \<and>
      (\<exists>f. r = workerResult (normalizeUrl (us ! n)) f) \<and>
      (\<forall>x. results (job (step x (reached dc us c ops))) ! n = Some r))"
proof -
  let ?s = "reached dc us c ops"
  have inv: "slotsInv ?s" using reached_invs by blast
  have u: "urls ?s = us" by (simp add: reached_def)
  have len: "length (results (job ?s)) = length us"
    using slotsInv_sizesD[OF inv] u by simp
  have "url r = normalizeUrl (us ! n) \<and> (\<exists>f. r = workerResult (normalizeUrl (us ! n)) f) \<and>
      (\<forall>x. results (job (step x ?s)) ! n = Some r)"
    if a: "n < length us" "results (job ?s) ! n = Some r" for n r
  proof -
    have "\<exists>f. r = workerResult (normalizeUrl (us ! n)) f"
      using slotsInv_filledD[OF inv, of n r] u a by simp
    moreover from this have "url r = normalizeUrl (us ! n)" by auto
    moreover have "\<forall>x. results (job (step x ?s)) ! n = Some r"
      using results_step[OF inv] a u by simp
    ultimately show ?thesis by blast
  qed
  then show ?thesis using len by blast
qed

theorem slot_reflects_url_witness:
  "1 < length exampleUrls \<and>
   results (job (reached 5 exampleUrls (Some 2) bothDone)) ! 1 = Some (timeoutResult ''https://b'') \<and>
   url (timeoutResult ''https://b'') = normalizeUrl (exampleUrls ! 1) \<and>
   results (job (step Cancel (reached 5 exampleUrls (Some 2) bothDone))) ! 1
     = Some (timeoutResult ''https://b'')"
proof -
  have "1 < length exampleUrls"
    by (simp add: exampleUrls_def)
  moreover have
    "results (job (reached 5 exampleUrls (Some 2) bothDone)) ! 1 = Some (timeoutResult ''https://b'')"
    by (simp add: completed_eq)
  ultimately show ?thesis
    using slot_reflects_url[of 5 exampleUrls "Some 2" bothDone] by blast
qed

section \<open>The processed counter\<close>

text \<open>
  C4: in every state a job can reach, \<open>processed\<close> is the number of non-empty
  result slots, the results array has \<open>total\<close> slots, \<open>total\<close> is the number of
  input URLs, \<open>processed\<close> lies in \<open>0..total\<close> and no step decreases it, and no
  step changes a non-empty slot. When the log holds a \<open>done\<close> event (the job ran
  to completion without cancellation), \<open>processed = total\<close>, every slot is
  non-empty, and the event carries \<open>processed = total\<close>.
\<close>

theorem processed_counts_slots:
  "processed (job (reached dc us c ops)) = filled (results (job (reached dc us c ops))) \<and>
   length (results (job (reached dc us c ops))) = total (job (reached dc us c ops)) \<and>
   total (job (reached dc us c ops)) = length us \<and>
   processed (job (reached dc us c ops)) \<le> total (job (reached dc us c ops)) \<and>
   (\<forall>x. processed (job (reached dc us c ops)) \<le> processed (job (step x (reached dc us c ops)))) \<and>
   (\<forall>x n r. n < length us \<longrightarrow> results (job (reached dc us c ops)) ! n = Some r \<longrightarrow>
      results (job (step x (reached dc us c ops))) ! n = Some r) \<and>
   (\<forall>p. (''done'', p) \<in> set (events (job (reached dc us c ops))) \<longrightarrow>
      processed (job (reached dc us c ops)) = total (job (reached dc us c ops)) \<and>
      (\<forall>n < length us. results (job (reached dc us c ops)) ! n \<noteq> None) \<and>
      p = PDone (total (job (reached dc us c ops))) (total (job (reached dc us c ops))))"
proof -
  let ?s = "reached dc us c ops"
  have inv: "slotsInv ?s" "poolInv ?s" using reached_invs by blast+
  have u: "urls ?s = us" by (simp add: reached_def)
  have a: "length (results (job ?s)) = length us" "total (job ?s) = length us"
    "processed (job ?s) = filled (results (job ?s))"
    using slotsInv_sizesD[OF inv(1)] u by simp_all
  have b: "processed (job ?s) \<le> total (job ?s)"
    using a filled_le[of "results (job ?s)"] by simp
  have c: "\<forall>x n r. n < length us \<longrightarrow> results (job ?s) ! n = Some r \<longrightarrow>
      results (job (step x ?s)) ! n = Some r"
    using results_step[OF inv(1)] u by simp
  have d: "processed (job ?s) = total (job ?s) \<and> (\<forall>n < length us. results (job ?s) ! n \<noteq> None) \<and>
      p = PDone (total (job ?s)) (total (job ?s))"
    if "(''done'', p) \<in> set (events (job ?s))" for p
  proof -
    have "p \<in> doneEvents ?s" using that by (simp add: doneEvents_def)
    then have full: "\<forall>n < length us. results (job ?s) ! n \<noteq> None"
      and p: "p = PDone (total (job ?s)) (total (job ?s))"
      using inv(2) u unfolding poolInv_def by auto
    have "filled (results (job ?s)) = length (results (job ?s))"
      using full a filled_full[of "results (job ?s)"] by simp
    then show ?thesis using full p a by simp
  qed
  show ?thesis
    using a b c d processed_step[of ?s] by simp
qed

theorem processed_counts_slots_witness:
  "(''done'', PDone 2 2) \<in> set (events (job (reached 5 exampleUrls (Some 2) bothDone))) \<and>
   processed (job (reached 5 exampleUrls (Some 2) bothDone)) = 2 \<and>
   total (job (reached 5 exampleUrls (Some 2) bothDone)) = 2 \<and>
   filled (results (job (reached 5 exampleUrls (Some 2) bothDone))) = 2 \<and>
   results (job (reached 5 exampleUrls (Some 2) bothDone)) ! 0 \<noteq> None \<and>
   results (job (reached 5 exampleUrls (Some 2) bothDone)) ! 1 \<noteq> None"
proof -
  have "(''done'', PDone 2 2) \<in> set (events (job (reached 5 exampleUrls (Some 2) bothDone)))"
    "total (job (reached 5 exampleUrls (Some 2) bothDone)) = 2"
    by (simp_all add: completed_eq)
  moreover have "(0::nat) < length exampleUrls" "(1::nat) < length exampleUrls"
    by (simp_all add: exampleUrls_def)
  ultimately show ?thesis
    using processed_counts_slots[of 5 exampleUrls "Some 2" bothDone] by metis
qed

section \<open>Replay to a new observer\<close>

text \<open>
  In every state a job can reach, an observer that attaches is sent the
  whole log, in order, and nothing else. When the job is not terminal the
  observer joins the fan-out set with its connection open, and the log it was
  sent is the \<open>start\<close> event followed by one \<open>progress\<close> event per processed
  result; when the job is terminal the observer is not added and its connection
  is ended. Every observer in the fan-out set has received, keep-alives apart,
  exactly the log; a connection the server has ended holds a prefix of the log,
  and the whole log when the log ends with the terminal event, as it does in
  every run without a fault. The request handler attaches to the job it finds
  under the trimmed id.
\<close>

lemma replay_then_live:
  "sent (conns (attach (reached dc us c ops)) ! length (conns (reached dc us c ops))) =
     events (job (reached dc us c ops)) \<and>
   (\<not> done (job (reached dc us c ops)) \<longrightarrow>
      clients (job (attach (reached dc us c ops))) =
        clients (job (reached dc us c ops)) @ [length (conns (reached dc us c ops))] \<and>
      \<not> ended (conns (attach (reached dc us c ops)) ! length (conns (reached dc us c ops))) \<and>
      length (events (job (reached dc us c ops))) = Suc (processed (job (reached dc us c ops))) \<and>
      startThenProgress (total (job (reached dc us c ops))) (events (job (reached dc us c ops)))) \<and>
   (done (job (reached dc us c ops)) \<longrightarrow>
      clients (job (attach (reached dc us c ops))) = [] \<and>
      ended (conns (attach (reached dc us c ops)) ! length (conns (reached dc us c ops)))) \<and>
   (\<forall>d \<in> set (clients (job (reached dc us c ops))).
      d < length (conns (reached dc us c ops)) \<and>
      logEvents (sent (conns (reached dc us c ops) ! d)) = events (job (reached dc us c ops))) \<and>
   (\<forall>d < length (conns (reached dc us c ops)).
      ended (conns (reached dc us c ops) ! d) \<longrightarrow>
      (\<exists>zs. events (job (reached dc us c ops)) =
             logEvents (sent (conns (reached dc us c ops) ! d)) @ zs) \<and>
      (isTerminal (fst (last (events (job (reached dc us c ops))))) \<or>
       (\<forall>x \<in> set ops. \<not> isFault x) \<longrightarrow>
         logEvents (sent (conns (reached dc us c ops) ! d)) = events (job (reached dc us c ops)))) \<and>
   (\<forall>jobs q. jobs (trim q) = Some (reached dc us c ops) \<longrightarrow>
      checkEvents jobs q = Inr (jobs(trim q \<mapsto> attach (reached dc us c ops))))"
proof -
  let ?s = "reached dc us c ops"
  have inv: "obsInv ?s" by (rule obsInv_reached)
  note D = obsInvD[OF inv]
  note A = attach_observer[OF inv]
  have a: "sent (conns (attach ?s) ! length (conns ?s)) = events (job ?s)"
    using A by blast
  have b: "\<not> done (job ?s) \<longrightarrow>
      clients (job (attach ?s)) = clients (job ?s) @ [length (conns ?s)] \<and>
      \<not> ended (conns (attach ?s) ! length (conns ?s)) \<and>
      length (events (job ?s)) = Suc (processed (job ?s)) \<and>
      startThenProgress (total (job ?s)) (events (job ?s))"
    using A D(7) by blast
  have c: "done (job ?s) \<longrightarrow> clients (job (attach ?s)) = [] \<and>
      ended (conns (attach ?s) ! length (conns ?s))"
    using A by blast
  have d: "\<forall>d \<in> set (clients (job ?s)).
      d < length (conns ?s) \<and> logEvents (sent (conns ?s ! d)) = events (job ?s)"
    using D(2) by blast
  have e: "\<forall>d < length (conns ?s). ended (conns ?s ! d) \<longrightarrow>
      (\<exists>zs. events (job ?s) = logEvents (sent (conns ?s ! d)) @ zs) \<and>
      (isTerminal (fst (last (events (job ?s)))) \<or> (\<forall>x \<in> set ops. \<not> isFault x) \<longrightarrow>
         logEvents (sent (conns ?s ! d)) = events (job ?s))"
  proof (intro allI impI)
    fix d assume h: "d < length (conns ?s)" "ended (conns ?s ! d)"
    have dn: "done (job ?s)" using D(4)[OF h] by blast
    have "\<forall>x \<in> set ops. \<not> isFault x \<Longrightarrow> isTerminal (fst (last (events (job ?s))))"
      using terminal_stays_last[of ops dc us c] dn by blast
    then show "(\<exists>zs. events (job ?s) = logEvents (sent (conns ?s ! d)) @ zs) \<and>
      (isTerminal (fst (last (events (job ?s)))) \<or> (\<forall>x \<in> set ops. \<not> isFault x) \<longrightarrow>
         logEvents (sent (conns ?s ! d)) = events (job ?s))"
      using ended_observer[OF inv h] by blast
  qed
  have f: "\<forall>jobs q. jobs (trim q) = Some ?s \<longrightarrow>
      checkEvents jobs q = Inr (jobs(trim q \<mapsto> attach ?s))"
    by (simp add: checkEvents_def Let_def)
  show ?thesis
    by (intro conjI a b c d e f)
qed

lemma replay_then_live_example:
  "\<not> done (job (reached 5 exampleUrls (Some 2) lateObserver)) \<and>
   processed (job (reached 5 exampleUrls (Some 2) lateObserver)) = 1 \<and>
   sent (conns (attach (reached 5 exampleUrls (Some 2) lateObserver)) ! 1) =
     [(''start'', PStart 2), (''progress'', PProgress 1 (timeoutResult ''https://b'') 1 2)] \<and>
   clients (job (attach (reached 5 exampleUrls (Some 2) lateObserver))) = [0, 1] \<and>
   0 \<in> set (clients (job (reached 5 exampleUrls (Some 2) lateObserver))) \<and>
   logEvents (sent (conns (reached 5 exampleUrls (Some 2) lateObserver) ! 0)) =
     events (job (reached 5 exampleUrls (Some 2) lateObserver)) \<and>
   ended (conns (reached 5 exampleUrls (Some 2) bothObservers) ! 0) \<and>
   ended (conns (reached 5 exampleUrls (Some 2) bothObservers) ! 1) \<and>
   isTerminal (fst (last (events (job (reached 5 exampleUrls (Some 2) bothObservers))))) \<and>
   logEvents (sent (conns (reached 5 exampleUrls (Some 2) bothObservers) ! 0)) =
     events (job (reached 5 exampleUrls (Some 2) bothObservers)) \<and>
   logEvents (sent (conns (reached 5 exampleUrls (Some 2) bothObservers) ! 1)) =
     events (job (reached 5 exampleUrls (Some 2) bothObservers))"
proof -
  note late = replay_then_live[of 5 exampleUrls "Some 2" lateObserver]
  note both = replay_then_live[of 5 exampleUrls "Some 2" bothObservers]
  have a: "\<not> done (job (reached 5 exampleUrls (Some 2) lateObserver))"
    "processed (job (reached 5 exampleUrls (Some 2) lateObserver)) = 1"
    "0 \<in> set (clients (job (reached 5 exampleUrls (Some 2) lateObserver)))"
    by (simp_all add: lateObserver_eq)
  have a': "length (conns (reached 5 exampleUrls (Some 2) lateObserver)) = 1"
    "clients (job (reached 5 exampleUrls (Some 2) lateObserver)) = [0]"
    "events (job (reached 5 exampleUrls (Some 2) lateObserver)) =
       [(''start'', PStart 2), (''progress'', PProgress 1 (timeoutResult ''https://b'') 1 2)]"
    by (simp_all add: lateObserver_eq)
  have b: "(0::nat) < length (conns (reached 5 exampleUrls (Some 2) bothObservers))"
    "(1::nat) < length (conns (reached 5 exampleUrls (Some 2) bothObservers))"
    "ended (conns (reached 5 exampleUrls (Some 2) bothObservers) ! 0)"
    "ended (conns (reached 5 exampleUrls (Some 2) bothObservers) ! 1)"
    "isTerminal (fst (last (events (job (reached 5 exampleUrls (Some 2) bothObservers)))))"
    by (simp_all add: bothObservers_eq isTerminal_def)
  have "sent (conns (attach (reached 5 exampleUrls (Some 2) lateObserver)) !
          length (conns (reached 5 exampleUrls (Some 2) lateObserver))) =
        events (job (reached 5 exampleUrls (Some 2) lateObserver))"
    using late by blast
  then have c1: "sent (conns (attach (reached 5 exampleUrls (Some 2) lateObserver)) ! 1) =
     [(''start'', PStart 2), (''progress'', PProgress 1 (timeoutResult ''https://b'') 1 2)]"
    by (simp only: a')
  have "clients (job (attach (reached 5 exampleUrls (Some 2) lateObserver))) =
        clients (job (reached 5 exampleUrls (Some 2) lateObserver)) @
          [length (conns (reached 5 exampleUrls (Some 2) lateObserver))]"
    using late a(1) by blast
  then have c2: "clients (job (attach (reached 5 exampleUrls (Some 2) lateObserver))) = [0, 1]"
    by (simp add: a')
  have d: "logEvents (sent (conns (reached 5 exampleUrls (Some 2) lateObserver) ! 0)) =
     events (job (reached 5 exampleUrls (Some 2) lateObserver))"
    using late a(3) by blast
  have e: "logEvents (sent (conns (reached 5 exampleUrls (Some 2) bothObservers) ! 0)) =
     events (job (reached 5 exampleUrls (Some 2) bothObservers))"
    "logEvents (sent (conns (reached 5 exampleUrls (Some 2) bothObservers) ! 1)) =
     events (job (reached 5 exampleUrls (Some 2) bothObservers))"
    using both b by blast+
  show ?thesis
    by (intro conjI a b(3,4,5) c1 c2 d e)
qed

text \<open>
  C5 does not hold of the code. The replay is the whole log in its order, and
  an observer of a terminal job is not added and is ended after the replay; but
  an observer that attaches after N results does not always see exactly the
  \<open>start\<close> event and N \<open>progress\<close> events, and its final sequence is not always
  that of an observer attached from the start. When a worker is rejected the
  \<open>.catch\<close> callback marks the job terminal and ends the observers, but leaves
  \<open>cancelled\<close> unset, so the result of a fetch that is still in flight is
  appended to the log as a \<open>progress\<close> event after the \<open>failed\<close> event. In
  \<open>replayAfterFault\<close> the first observer is replayed \<open>start\<close>, \<open>failed\<close> and
  ended; the second attaches after one of two results and is replayed \<open>start\<close>,
  \<open>failed\<close>, \<open>progress\<close>. In \<open>liveThroughFault\<close> the observer attached from the
  start ends with \<open>start\<close>, \<open>progress\<close>, \<open>failed\<close>, and the one that attaches
  after two of three results is replayed a second \<open>progress\<close> event after
  \<open>failed\<close>. This holds whatever the entry \<open>u\<close> is on which the worker throws
  and whatever the message. The defect is the one of the section on events after a
  terminal event.
\<close>

theorem observers_differ_after_fault:
  "events (job (reached 5 [u, ''https://b''] (Some 2) (replayAfterFault msg))) =
     [(''start'', PStart 2), (''failed'', PFailed msg),
      (''progress'', PProgress 1 (timeoutResult ''https://b'') 1 2)] \<and>
   processed (job (reached 5 [u, ''https://b''] (Some 2) (replayAfterFault msg))) = 1 \<and>
   map sent (conns (reached 5 [u, ''https://b''] (Some 2) (replayAfterFault msg))) =
     [[(''start'', PStart 2), (''failed'', PFailed msg)],
      [(''start'', PStart 2), (''failed'', PFailed msg),
       (''progress'', PProgress 1 (timeoutResult ''https://b'') 1 2)]] \<and>
   map ended (conns (reached 5 [u, ''https://b''] (Some 2) (replayAfterFault msg))) =
     [True, True] \<and>
   sent (conns (reached 5 [u, ''https://b''] (Some 2) (replayAfterFault msg)) ! 1) \<noteq>
     sent (conns (reached 5 [u, ''https://b''] (Some 2) (replayAfterFault msg)) ! 0) \<and>
   events (job (reached 5 [''https://a'', ''https://b'', u] (Some 2) (liveThroughFault msg))) =
     [(''start'', PStart 3),
      (''progress'', PProgress 0 (timeoutResult ''https://a'') 1 3),
      (''failed'', PFailed msg),
      (''progress'', PProgress 1 (timeoutResult ''https://b'') 2 3)] \<and>
   processed (job (reached 5 [''https://a'', ''https://b'', u] (Some 2)
     (liveThroughFault msg))) = 2 \<and>
   map sent (conns (reached 5 [''https://a'', ''https://b'', u] (Some 2)
     (liveThroughFault msg))) =
     [[(''start'', PStart 3),
       (''progress'', PProgress 0 (timeoutResult ''https://a'') 1 3),
       (''failed'', PFailed msg)],
      [(''start'', PStart 3),
       (''progress'', PProgress 0 (timeoutResult ''https://a'') 1 3),
       (''failed'', PFailed msg),
       (''progress'', PProgress 1 (timeoutResult ''https://b'') 2 3)]] \<and>
   map ended (conns (reached 5 [''https://a'', ''https://b'', u] (Some 2)
     (liveThroughFault msg))) = [True, True] \<and>
   sent (conns (reached 5 [''https://a'', ''https://b'', u] (Some 2)
     (liveThroughFault msg)) ! 1) \<noteq>
     sent (conns (reached 5 [''https://a'', ''https://b'', u] (Some 2)
       (liveThroughFault msg)) ! 0)"
  by (simp add: reached_def replayAfterFault_def liveThroughFault_def startTwo_eq startThree_eq
      run_simps)
section \<open>Cancellation\<close>

text \<open>
  C6: when a job that is not yet terminal is cancelled, the event
  \<open>failed {error: "cancelled"}\<close> is appended to its log and the job is terminal
  and cancelled. Whatever happens afterwards (fetches that complete, workers
  that resume, faults, further cancel requests, observers), the log, the result
  slots and \<open>processed\<close> stay as they were: no \<open>progress\<close> event is emitted, and
  a result that arrives after the cancellation is neither stored nor counted.
\<close>

theorem cancel_discards_late_results:
  assumes "\<not> done (job s)"
  shows "events (job (step Cancel s)) = events (job s) @ [(''failed'', PFailed ''cancelled'')] \<and>
         done (job (step Cancel s)) \<and> cancelled (job (step Cancel s)) \<and>
         events (job (runOps ops (step Cancel s))) = events (job (step Cancel s)) \<and>
         results (job (runOps ops (step Cancel s))) = results (job s) \<and>
         processed (job (runOps ops (step Cancel s))) = processed (job s) \<and>
         clients (job (runOps ops (step Cancel s))) = []"
proof -
  have a: "events (job (step Cancel s)) = events (job s) @ [(''failed'', PFailed ''cancelled'')]"
    "results (job (step Cancel s)) = results (job s)"
    "processed (job (step Cancel s)) = processed (job s)"
    "frozen (step Cancel s)"
    using assms
    by (simp_all add: cancelJob_def Let_def pushJobEvent_def cleanupJob_def isTerminal_def frozen_def)
  show ?thesis
    using a frozen_runOps[OF a(4), of ops] by (simp add: frozen_def logged_def)
qed

theorem cancel_discards_late_results_witness:
  "\<not> done (job (reached 5 exampleUrls (Some 2) oneDone)) \<and>
   processed (job (reached 5 exampleUrls (Some 2) oneDone)) = 1 \<and>
   events (job (runOps lateResult (step Cancel (reached 5 exampleUrls (Some 2) oneDone)))) =
     [(''start'', PStart 2), (''progress'', PProgress 1 (timeoutResult ''https://b'') 1 2),
      (''failed'', PFailed ''cancelled'')] \<and>
   results (job (runOps lateResult (step Cancel (reached 5 exampleUrls (Some 2) oneDone)))) =
     [None, Some (timeoutResult ''https://b'')] \<and>
   processed (job (runOps lateResult (step Cancel (reached 5 exampleUrls (Some 2) oneDone)))) = 1"
proof -
  have a: "\<not> done (job (reached 5 exampleUrls (Some 2) oneDone))"
    by (simp add: oneDone_eq)
  show ?thesis
    using cancel_discards_late_results[OF a, of lateResult] by (simp add: oneDone_eq)
qed

section \<open>No repeated fetch, no repeated page\<close>

text \<open>
  C7: in every crawl no sitemap document URL is fetched twice, and no page URL
  occurs twice in the URLs of the emitted batches, neither in two batches nor
  within one. The total of a \<open>done\<close> event is the number of distinct page URLs
  emitted in the batches. When the root URL is valid, every document is fetched
  and parsed and the observer stays connected, the stream ends with that
  \<open>done\<close> event.
\<close>

theorem crawl_never_repeats:
  "distinct (fetches (sitemapStream parseUrl net closes maxDepth q)) \<and>
   distinct (batchUrls (out (sitemapStream parseUrl net closes maxDepth q))) \<and>
   (\<forall>t. CrawlDone t \<in> set (out (sitemapStream parseUrl net closes maxDepth q)) \<longrightarrow>
      t = length (batchUrls (out (sitemapStream parseUrl net closes maxDepth q))) \<and>
      t = card (set (batchUrls (out (sitemapStream parseUrl net closes maxDepth q))))) \<and>
   (validRoot parseUrl q \<and> (\<forall>u. answers (net u)) \<and> (\<forall>n. \<not> closes n) \<longrightarrow>
      last (out (sitemapStream parseUrl net closes maxDepth q)) =
        CrawlDone (card (set (batchUrls (out (sitemapStream parseUrl net closes maxDepth q))))))"
proof -
  let ?r = "sitemapStream parseUrl net closes maxDepth q"
  have p: "crawlPost net ?r" by (rule crawlPost_sitemapStream)
  then have d: "distinct (fetches ?r)" "distinct (batchUrls (out ?r))"
    and t: "\<forall>t. CrawlDone t \<in> set (out ?r) \<longrightarrow> t = length (batchUrls (out ?r))"
    by (simp_all add: crawlPost_def)
  have c: "card (set (batchUrls (out ?r))) = length (batchUrls (out ?r))"
    using d(2) by (rule distinct_card)
  have e: "last (out ?r) = CrawlDone (card (set (batchUrls (out ?r))))"
    if h: "validRoot parseUrl q \<and> (\<forall>u. answers (net u)) \<and> (\<forall>n. \<not> closes n)"
  proof -
    have "\<exists>bs t. out ?r = bs @ [CrawlDone t]"
      using sitemapStream_done[of parseUrl q net closes maxDepth] h by blast
    then obtain bs t where o: "out ?r = bs @ [CrawlDone t]" by blast
    then have "CrawlDone t \<in> set (out ?r)" by simp
    then have "t = length (batchUrls (out ?r))" using t by blast
    then show ?thesis using o c by simp
  qed
  show ?thesis using d t c e by simp
qed

theorem crawl_never_repeats_witness:
  "CrawlDone 3 \<in> set (out (sitemapStream exampleParseUrl exampleNet (\<lambda>n. False) 1 (Some '' http://r ''))) \<and>
   batchUrls (out (sitemapStream exampleParseUrl exampleNet (\<lambda>n. False) 1 (Some '' http://r ''))) =
     [''p1'', ''p2'', ''p3''] \<and>
   3 = card (set (batchUrls (out (sitemapStream exampleParseUrl exampleNet (\<lambda>n. False) 1
     (Some '' http://r ''))))) \<and>
   validRoot exampleParseUrl (Some ''http://r'') \<and> (\<forall>u. answers (quietNet u)) \<and>
   last (out (sitemapStream exampleParseUrl quietNet (\<lambda>n. False) 5 (Some ''http://r''))) =
     CrawlDone (card (set (batchUrls (out (sitemapStream exampleParseUrl quietNet (\<lambda>n. False) 5
       (Some ''http://r''))))))"
proof -
  have a: "CrawlDone 3 \<in> set (out (sitemapStream exampleParseUrl exampleNet (\<lambda>n. False) 1 (Some '' http://r '')))"
    by (subst example_crawl_eq) simp
  have b: "batchUrls (out (sitemapStream exampleParseUrl exampleNet (\<lambda>n. False) 1 (Some '' http://r ''))) =
     [''p1'', ''p2'', ''p3'']"
    by (subst example_crawl_eq) (simp add: batchUrls_def)
  have c: "validRoot exampleParseUrl (Some ''http://r'')" "\<forall>u. answers (quietNet u)"
    "\<forall>n. \<not> (\<lambda>n. False) n"
    by (simp_all add: validRoot_def trim_def isSpace_def exampleParseUrl_def answers_def quietNet_def)
  have d: "3 = card (set (batchUrls (out (sitemapStream exampleParseUrl exampleNet (\<lambda>n. False) 1
     (Some '' http://r '')))))"
    using crawl_never_repeats[of exampleParseUrl exampleNet "\<lambda>n. False" 1 "Some '' http://r ''"] a
    by blast
  have e: "last (out (sitemapStream exampleParseUrl quietNet (\<lambda>n. False) 5 (Some ''http://r''))) =
     CrawlDone (card (set (batchUrls (out (sitemapStream exampleParseUrl quietNet (\<lambda>n. False) 5
       (Some ''http://r''))))))"
    using crawl_never_repeats[of exampleParseUrl quietNet "\<lambda>n. False" 5 "Some ''http://r''"] c
    by blast
  show ?thesis
    by (intro conjI a b c(1,2) d e)
qed

section \<open>A failed fetch aborts the crawl\<close>

text \<open>
  C8: when the fetch of a sitemap document fails (the fetch throws, as on a
  network error or a timeout, the status is not ok, or reading the body throws),
  that fetch is the last one of the crawl, the response is ended, the stream
  holds exactly one \<open>failed\<close> event, which is its last event and carries the
  error of that fetch, and it holds no \<open>done\<close> event: everything before the
  \<open>failed\<close> event is a batch.
\<close>

theorem fetch_failure_aborts:
  assumes "n < length (fetches (sitemapStream parseUrl net closes maxDepth q))"
    "fetchFails (net (fetches (sitemapStream parseUrl net closes maxDepth q) ! n))"
  shows "Suc n = length (fetches (sitemapStream parseUrl net closes maxDepth q)) \<and>
         resEnded (sitemapStream parseUrl net closes maxDepth q) \<and>
         last (out (sitemapStream parseUrl net closes maxDepth q)) =
           CrawlFailed (failMessage (net (fetches (sitemapStream parseUrl net closes maxDepth q) ! n))) \<and>
         failedCount (out (sitemapStream parseUrl net closes maxDepth q)) = 1 \<and>
         (\<forall>t. CrawlDone t \<notin> set (out (sitemapStream parseUrl net closes maxDepth q))) \<and>
         (\<forall>e \<in> set (butlast (out (sitemapStream parseUrl net closes maxDepth q))). isBatch e)"
proof -
  let ?r = "sitemapStream parseUrl net closes maxDepth q"
  have p: "crawlPost net ?r" by (rule crawlPost_sitemapStream)
  then obtain bs where a: "Suc n = length (fetches ?r)" "resEnded ?r"
    "out ?r = bs @ [CrawlFailed (failMessage (net (fetches ?r ! n)))]" "\<forall>e \<in> set bs. isBatch e"
    using assms unfolding crawlPost_def by blast
  have "failedCount (out ?r) = 1"
    using failedCount_batches[OF a(4)] unfolding a(3) by (simp add: failedCount_def)
  moreover have "\<forall>t. CrawlDone t \<notin> set (out ?r)"
    using batches_no_done[OF a(4)] unfolding a(3) by simp
  moreover have "last (out ?r) = CrawlFailed (failMessage (net (fetches ?r ! n)))"
    "butlast (out ?r) = bs"
    unfolding a(3) by simp_all
  ultimately show ?thesis using a by simp
qed

theorem fetch_failure_aborts_witness:
  "3 < length (fetches (sitemapStream exampleParseUrl exampleNet (\<lambda>n. False) 5 (Some '' http://r ''))) \<and>
   fetchFails (exampleNet (fetches (sitemapStream exampleParseUrl exampleNet (\<lambda>n. False) 5
     (Some '' http://r '')) ! 3)) \<and>
   Suc 3 = length (fetches (sitemapStream exampleParseUrl exampleNet (\<lambda>n. False) 5 (Some '' http://r ''))) \<and>
   failedCount (out (sitemapStream exampleParseUrl exampleNet (\<lambda>n. False) 5 (Some '' http://r ''))) = 1 \<and>
   CrawlDone 3 \<notin> set (out (sitemapStream exampleParseUrl exampleNet (\<lambda>n. False) 5 (Some '' http://r '')))"
proof -
  have a: "3 < length (fetches (sitemapStream exampleParseUrl exampleNet (\<lambda>n. False) 5 (Some '' http://r '')))"
    by (subst example_crawl_fails_eq) simp
  have b: "fetchFails (exampleNet (fetches (sitemapStream exampleParseUrl exampleNet (\<lambda>n. False) 5
     (Some '' http://r '')) ! 3))"
    by (subst example_crawl_fails_eq) (simp add: exampleNet_def fetchFails_def)
  show ?thesis
    using fetch_failure_aborts[OF a b] a b by blast
qed

section \<open>Per-URL failures\<close>



section \<open>The sitemap stream\<close>

text \<open>
  C10: when the root URL of a sitemap-stream request is empty, or \<open>new URL\<close>
  rejects it, or its protocol is neither \<open>http:\<close> nor \<open>https:\<close>, the stream
  carries exactly one \<open>failed\<close> event and is ended; there is no \<open>batch\<close> and no
  \<open>done\<close> event, and nothing is fetched.
\<close>

theorem invalid_root_fails:
  assumes "trim (case q of None \<Rightarrow> [] | Some x \<Rightarrow> x) = [] \<or>
           (case parseUrl (trim (case q of None \<Rightarrow> [] | Some x \<Rightarrow> x)) of
              None \<Rightarrow> True
            | Some (protocol, href) \<Rightarrow> protocol \<noteq> ''http:'' \<and> protocol \<noteq> ''https:'')"
  shows "out (sitemapStream parseUrl net closes maxDepth q) =
           [CrawlFailed (if trim (case q of None \<Rightarrow> [] | Some x \<Rightarrow> x) = []
                         then ''sitemap url required'' else ''invalid sitemap url'')] \<and>
         resEnded (sitemapStream parseUrl net closes maxDepth q) \<and>
         fetches (sitemapStream parseUrl net closes maxDepth q) = []"
  using assms
  by (auto simp: sitemapStream_def Let_def failWith_def split: option.splits)

theorem invalid_root_fails_witness:
  "(case exampleParseUrl (trim ''ftp://x'') of
      None \<Rightarrow> True
    | Some (protocol, href) \<Rightarrow> protocol \<noteq> ''http:'' \<and> protocol \<noteq> ''https:'') \<and>
   out (sitemapStream exampleParseUrl exampleNet (\<lambda>n. False) 5 (Some ''ftp://x'')) =
     [CrawlFailed ''invalid sitemap url''] \<and>
   resEnded (sitemapStream exampleParseUrl exampleNet (\<lambda>n. False) 5 (Some ''ftp://x'')) \<and>
   fetches (sitemapStream exampleParseUrl exampleNet (\<lambda>n. False) 5 (Some ''ftp://x'')) = []"
  using invalid_root_fails[of "Some ''ftp://x''" exampleParseUrl exampleNet "\<lambda>n. False" 5]
  by (simp add: trim_def isSpace_def exampleParseUrl_def)

end
